theory Spec2Isabelle
  imports Main "HOL-Library.Word" "HOL-Library.AList" "HOL-Library.Multiset"
    "HOL-Library.Extended_Nat"
begin

section \<open>Strings and characters\<close>

text \<open>
  A JavaScript string is a sequence of UTF-16 code units; \<open>length\<close>, indexing,
  \<open>substring\<close> and the (non-unicode) regular expressions of \<open>src/lib/index.js\<close> all
  work on code units. A code unit is a 16-bit word, a string a list of them.

\<close>

type_synonym jschar = "16 word"
type_synonym jsstring = "jschar list"

text \<open>
  The literal characters the source mentions: line feed, space, U+7B2C (the ordinal prefix
  of a heading) and U+7AE0 (the word for chapter).
\<close>

abbreviation ch_nl :: jschar where "ch_nl \<equiv> 0x0A"
abbreviation ch_space :: jschar where "ch_space \<equiv> 0x20"
abbreviation ch_di :: jschar where "ch_di \<equiv> 0x7B2C"
abbreviation ch_zhang :: jschar where "ch_zhang \<equiv> 0x7AE0"

text \<open>\<open>\d\<close>: an ASCII digit.\<close>

definition isDigit :: "jschar \<Rightarrow> bool" where
  "isDigit c = (0x30 \<le> c \<and> c \<le> 0x39)"

text \<open>
  \<open>\s\<close> and the characters removed by \<open>trim()\<close>: the WhiteSpace and LineTerminator
  productions of ECMAScript (TAB, LF, VT, FF, CR, SP, NBSP, the Unicode space separators,
  LS, PS and the byte order mark).
\<close>

definition isSpace :: "jschar \<Rightarrow> bool" where
  "isSpace c = ((0x09 \<le> c \<and> c \<le> 0x0D) \<or> c = 0x20 \<or> c = 0xA0 \<or> c = 0x1680
     \<or> (0x2000 \<le> c \<and> c \<le> 0x200A) \<or> c = 0x2028 \<or> c = 0x2029 \<or> c = 0x202F
     \<or> c = 0x205F \<or> c = 0x3000 \<or> c = 0xFEFF)"

text \<open>The characters \<open>.\<close> does not match: the line terminators LF, CR, LS, PS.\<close>

definition isLineTerminator :: "jschar \<Rightarrow> bool" where
  "isLineTerminator c = (c = 0x0A \<or> c = 0x0D \<or> c = 0x2028 \<or> c = 0x2029)"

definition trim :: "jsstring \<Rightarrow> jsstring" where
  "trim s = rev (dropWhile isSpace (rev (dropWhile isSpace s)))"

section \<open>Numbers\<close>

text \<open>
  A JavaScript number is an IEEE double. The numbers the pipeline computes as chapter
  numbers and word counts are sums and products of non-negative integers: they are doubles
  whose value is a non-negative integer, or \<open>+Infinity\<close>, and are modelled as extended
  natural numbers (\<open>\<infinity>\<close> is \<open>+Infinity\<close>).

  \<open>roundDouble n\<close> is the Number value for the integer \<open>n\<close>: \<open>n\<close> itself below
  \<open>2^53\<close>; otherwise \<open>n\<close> rounded to 53 significant bits, to the nearest, ties to the
  even significand; \<open>+Infinity\<close> when the rounded value reaches \<open>2^1024\<close>.
  \<open>bitLength n\<close> is the number of binary digits of \<open>n\<close>.
\<close>

type_synonym jsnumber = enat

fun bitLength :: "nat \<Rightarrow> nat" where
  "bitLength n = (if n = 0 then 0 else Suc (bitLength (n div 2)))"

declare bitLength.simps [simp del]

definition roundDouble :: "nat \<Rightarrow> jsnumber" where
  "roundDouble n =
     (if n < 2 ^ 53 then enat n
      else (let e = bitLength n - 53;
                q = n div 2 ^ e;
                r = n mod 2 ^ e;
                half = 2 ^ (e - 1);
                m = (if half < r \<or> (r = half \<and> odd q) then q + 1 else q) * 2 ^ e
            in if m < 2 ^ 1024 then enat m else \<infinity>))"

text \<open>
  \<open>a + b\<close> and \<open>a * b\<close> on such numbers: the exact result, rounded. (No product of the
  source has an infinite factor together with a zero one, which would give \<open>NaN\<close>.)
\<close>

definition numAdd :: "jsnumber \<Rightarrow> jsnumber \<Rightarrow> jsnumber" where
  "numAdd a b = (if a = \<infinity> \<or> b = \<infinity> then \<infinity> else roundDouble (the_enat a + the_enat b))"

definition numMul :: "jsnumber \<Rightarrow> jsnumber \<Rightarrow> jsnumber" where
  "numMul a b = (if a = \<infinity> \<or> b = \<infinity> then \<infinity> else roundDouble (the_enat a * the_enat b))"

section \<open>Normalizer: chineseNumeralToNumber\<close>

text \<open>
  The two object literals \<open>map\<close> and \<open>unitMap\<close> of \<open>chineseNumeralToNumber\<close>, as
  association lists in the order the source writes them; \<open>ch in map\<close> is a lookup that
  succeeds.
\<close>

definition digitMap :: "(jschar \<times> nat) list" where
  "digitMap = [(0x96F6, 0), (0x4E00, 1), (0x4E8C, 2), (0x4E09, 3), (0x56DB, 4), (0x4E94, 5),
     (0x516D, 6), (0x4E03, 7), (0x516B, 8), (0x4E5D, 9), (0x4E24, 2)]"

definition unitMap :: "(jschar \<times> nat) list" where
  "unitMap = [(0x5341, 10), (0x767E, 100), (0x5343, 1000), (0x4E07, 10000),
     (0x4EBF, 100000000)]"

text \<open>
  \<open>parseInt(s, 10)\<close> on a string of ASCII digits (both call sites apply it to a match of
  \<open>\d+\<close> only): the Number value for the decimal value of the digits, which is read left
  to right.
\<close>

definition digitValue :: "jschar \<Rightarrow> nat" where
  "digitValue c = unat c - 0x30"

definition parseInt10 :: "jsstring \<Rightarrow> jsnumber" where
  "parseInt10 s = roundDouble (foldl (\<lambda>acc c. acc * 10 + digitValue c) 0 s)"

text \<open>The three accumulators of the loop (\<open>section\<close> is written \<open>section'\<close>).\<close>

record numeral_state =
  result :: jsnumber
  section' :: jsnumber
  number :: jsnumber

text \<open>
  The body of the \<open>for\<close> loop, for the character \<open>ch = chinese[i]\<close>.
  \<open>number || 1\<close> is \<open>1\<close> when \<open>number\<close> is \<open>0\<close>.
\<close>

definition numeralStep :: "numeral_state \<Rightarrow> jschar \<Rightarrow> numeral_state" where
  "numeralStep st ch =
     (case map_of digitMap ch of
        Some d \<Rightarrow> st\<lparr>number := enat d\<rparr>
      | None \<Rightarrow>
         (case map_of unitMap ch of
            Some unit \<Rightarrow>
              (if unit \<ge> 10000
               then (let sec = numMul (numAdd (section' st) (number st)) (enat unit)
                     in st\<lparr>result := numAdd (result st) sec, section' := 0, number := 0\<rparr>)
               else st\<lparr>section' := numAdd (section' st)
                                      (numMul (if number st = 0 then 1 else number st) (enat unit)),
                       number := 0\<rparr>)
          | None \<Rightarrow> st\<lparr>number := 0\<rparr>))"

text \<open>The loop \<open>for (let i = 0; i < chinese.length; i++)\<close>, from index \<open>i\<close> on.\<close>

function numeralLoop :: "jsstring \<Rightarrow> nat \<Rightarrow> numeral_state \<Rightarrow> numeral_state" where
  "numeralLoop chinese i st =
     (if i < length chinese then numeralLoop chinese (i + 1) (numeralStep st (chinese ! i))
      else st)"
  by pat_completeness auto
termination
  by (relation "measure (\<lambda>(chinese, i, st). length chinese - i)") auto

declare numeralLoop.simps [simp del]

text \<open>
  \<open>chineseNumeralToNumber\<close>: \<open>None\<close> is the \<open>null\<close> returned for the empty string
  (the only falsy string); \<open>/^\d+$/\<close> holds of a non-empty string of digits.
\<close>

definition chineseNumeralToNumber :: "jsstring \<Rightarrow> jsnumber option" where
  "chineseNumeralToNumber chinese =
     (if chinese = [] then None
      else if list_all isDigit chinese then Some (parseInt10 chinese)
      else (let st = numeralLoop chinese 0 \<lparr>result = 0, section' = 0, number = 0\<rparr>
            in Some (numAdd (numAdd (result st) (section' st)) (number st))))"

section \<open>ChapterSegmenter: the loop of splitIntoChapters\<close>

text \<open>\<open>content.split('\n')\<close>: always at least one line; no line contains a line feed.\<close>

function splitLines :: "jsstring \<Rightarrow> jsstring list" where
  "splitLines s =
     (case dropWhile (\<lambda>c. c \<noteq> ch_nl) s of
        [] \<Rightarrow> [s]
      | _ # rest \<Rightarrow> takeWhile (\<lambda>c. c \<noteq> ch_nl) s # splitLines rest)"
  by pat_completeness auto
termination
proof (relation "measure length")
  fix s :: jsstring and x rest
  assume "dropWhile (\<lambda>c. c \<noteq> ch_nl) s = x # rest"
  then have "length (x # rest) \<le> length s"
    using length_dropWhile_le [of "\<lambda>c. c \<noteq> ch_nl" s] by simp
  then show "(rest, s) \<in> measure length" by simp
qed simp

declare splitLines.simps [simp del]

text \<open>\<open>lines.join('\n')\<close>.\<close>

fun joinLines :: "jsstring list \<Rightarrow> jsstring" where
  "joinLines [] = []"
| "joinLines [l] = l"
| "joinLines (l # ls) = l @ ch_nl # joinLines ls"

text \<open>
  The character class of the heading pattern: the sixteen Chinese numeral characters, as
  code units in the order the source lists them (zero to nine, ten, hundred, thousand,
  ten thousand, the variant of two, hundred million), and \<open>\d\<close>.
\<close>

definition numeralClass :: "jschar list" where
  "numeralClass = [0x96F6, 0x4E00, 0x4E8C, 0x4E09, 0x56DB, 0x4E94, 0x516D, 0x4E03, 0x516B,
     0x4E5D, 0x5341, 0x767E, 0x5343, 0x4E07, 0x4E24, 0x4EBF]"

definition isNumeralChar :: "jschar \<Rightarrow> bool" where
  "isNumeralChar c = (c \<in> set numeralClass \<or> isDigit c)"

text \<open>
  \<open>line.match(/^DI([...]+)ZHANG(?:\s*(.*))?/)\<close>, where \<open>DI\<close> stands for the
  character U+7B2C and \<open>ZHANG\<close> for U+7AE0. The result is \<open>None\<close> when the line does
  not match, and otherwise the two capture groups. The class does not contain \<open>ZHANG\<close>, so
  group 1 is the longest run of class characters after \<open>DI\<close>, and it must be followed by
  \<open>ZHANG\<close>. The optional group takes the longest run of white space and then the longest run
  of characters that are not line terminators; group 2 is \<open>undefined\<close> (\<open>None\<close>) when
  nothing follows \<open>ZHANG\<close>, since an optional group does not match the empty string.
\<close>

definition chapterMatch :: "jsstring \<Rightarrow> (jsstring \<times> jsstring option) option" where
  "chapterMatch line =
     (case line of
        [] \<Rightarrow> None
      | c # rest \<Rightarrow>
          if c \<noteq> ch_di then None
          else (let num = takeWhile isNumeralChar rest in
                if num = [] then None
                else (case dropWhile isNumeralChar rest of
                        [] \<Rightarrow> None
                      | z # after \<Rightarrow>
                          if z \<noteq> ch_zhang then None
                          else if after = [] then Some (num, None)
                          else Some (num, Some (takeWhile (\<lambda>c. \<not> isLineTerminator c)
                                                  (dropWhile isSpace after))))))"

text \<open>
  The number in the template literal of the title, \<open>String(x)\<close>.
  Below \<open>10^21\<close> it is the decimal digits of the integer (\<open>digitsOf\<close>).
  From \<open>10^21\<close> on it is the exponent notation of ECMAScript's \<open>Number::toString\<close>:
  with the fewest digits \<open>k\<close>, the digits \<open>s\<close> and the exponent for which
  \<open>s * 10^(n - k)\<close> has the number as its Number value (the closest such \<open>s\<close>), the first
  digit, a point and the other digits if there are any, then \<open>e+\<close> and the exponent
  \<open>n - 1\<close>. \<open>+Infinity\<close> is printed as the word \<open>Infinity\<close>.

  For \<open>k\<close> digits and a number \<open>x\<close> of \<open>p\<close> decimal digits, \<open>digitCandidate\<close> gives
  the \<open>s\<close> of that length, if there is one; \<open>searchDigits\<close> tries the lengths from \<open>k\<close>
  up (a double needs at most 17 digits).
\<close>

definition digitChar :: "nat \<Rightarrow> jschar" where
  "digitChar d = of_nat (0x30 + d)"

fun digitsOf :: "nat \<Rightarrow> jsstring" where
  "digitsOf n = (if n < 10 then [digitChar n] else digitsOf (n div 10) @ [digitChar (n mod 10)])"

declare digitsOf.simps [simp del]

definition digitCandidate :: "nat \<Rightarrow> nat \<Rightarrow> nat \<Rightarrow> nat option" where
  "digitCandidate x p k =
     (let scale = 10 ^ (p - k);
          lo = x div scale;
          hi = lo + 1;
          okLo = (roundDouble (lo * scale) = enat x);
          okHi = (hi < 10 ^ k \<and> roundDouble (hi * scale) = enat x)
      in if okLo \<and> okHi
         then (if x - lo * scale < hi * scale - x then Some lo
               else if hi * scale - x < x - lo * scale then Some hi
               else if even lo then Some lo else Some hi)
         else if okLo then Some lo
         else if okHi then Some hi
         else None)"

function searchDigits :: "nat \<Rightarrow> nat \<Rightarrow> nat \<Rightarrow> nat" where
  "searchDigits x p k =
     (if 17 \<le> k then x div 10 ^ (p - k)
      else (case digitCandidate x p k of
              Some s \<Rightarrow> s
            | None \<Rightarrow> searchDigits x p (k + 1)))"
  by pat_completeness auto
termination
  by (relation "measure (\<lambda>(x, p, k). 17 - k)") auto

declare searchDigits.simps [simp del]

definition exponentForm :: "nat \<Rightarrow> jsstring" where
  "exponentForm x =
     (let p = length (digitsOf x)
      in if roundDouble (10 ^ p) = enat x then [0x31, 0x65, 0x2B] @ digitsOf p
         else (case digitsOf (searchDigits x p 1) of
                 [] \<Rightarrow> []
               | d # ds \<Rightarrow>
                   d # (if ds = [] then [] else 0x2E # ds) @ [0x65, 0x2B] @ digitsOf (p - 1)))"

definition numberToString :: "jsnumber \<Rightarrow> jsstring" where
  "numberToString x =
     (case x of
        enat n \<Rightarrow> if n < 10 ^ 21 then digitsOf n else exponentForm n
      | \<infinity> \<Rightarrow> [0x49, 0x6E, 0x66, 0x69, 0x6E, 0x69, 0x74, 0x79])"

text \<open>A chapter object \<open>{title, data}\<close>.\<close>

record chapter_obj =
  title :: jsstring
  data :: jsstring

text \<open>The placeholder body of a chapter without content, as code units.\<close>

definition emptyChapterText :: jsstring where
  "emptyChapterText = [0x28, 0x672C, 0x7AE0, 0x6682, 0x65E0, 0x5185, 0x5BB9, 0x29]"

text \<open>
  The variables of the loop. \<open>currentChapter\<close> starts as \<open>null\<close> (\<open>None\<close>);
  \<open>if (currentChapter)\<close> holds of a non-empty string.
\<close>

record segmenter_state =
  chapters :: "chapter_obj list"
  currentChapter :: "jsstring option"
  currentContent :: "jsstring list"

definition truthy :: "jsstring option \<Rightarrow> bool" where
  "truthy v = (case v of None \<Rightarrow> False | Some s \<Rightarrow> s \<noteq> [])"

text \<open>
  Saving a chapter (\<open>chapters.push\<close> under \<open>if (currentChapter)\<close>), as done both at a
  heading and after the loop.
\<close>

definition pushChapter :: "segmenter_state \<Rightarrow> chapter_obj list" where
  "pushChapter st =
     (case currentChapter st of
        None \<Rightarrow> chapters st
      | Some t \<Rightarrow>
          if t = [] then chapters st
          else (let chapterData = trim (joinLines (currentContent st))
                in chapters st @
                   [\<lparr>title = t,
                     data = (if length chapterData > 0 then chapterData else emptyChapterText)\<rparr>]))"

text \<open>The title built at a heading from the two capture groups.\<close>

definition chapterTitle :: "jsstring \<Rightarrow> jsstring \<Rightarrow> jsstring option \<Rightarrow> jsstring" where
  "chapterTitle line chineseNum group2 =
     (let suffix = (case group2 of None \<Rightarrow> [] | Some g \<Rightarrow> if g = [] then [] else trim g)
      in case chineseNumeralToNumber chineseNum of
           Some arabic \<Rightarrow>
             trim (ch_di # numberToString arabic @ ch_zhang #
                   (if suffix \<noteq> [] then ch_space # suffix else []))
         | None \<Rightarrow> trim line)"

text \<open>The body of \<open>for (const line of lines)\<close>.\<close>

definition segmentStep :: "segmenter_state \<Rightarrow> jsstring \<Rightarrow> segmenter_state" where
  "segmentStep st line =
     (case chapterMatch line of
        Some (chineseNum, group2) \<Rightarrow>
          \<lparr>chapters = pushChapter st,
           currentChapter = Some (chapterTitle line chineseNum group2),
           currentContent = []\<rparr>
      | None \<Rightarrow>
          if truthy (currentChapter st)
          then st\<lparr>currentContent := currentContent st @ [line]\<rparr>
          else st)"

text \<open>The chapters of \<open>splitIntoChapters\<close> before \<open>removeDuplicateChapters\<close> is called.\<close>

definition segmentLines :: "jsstring list \<Rightarrow> chapter_obj list" where
  "segmentLines lines =
     pushChapter (foldl segmentStep
        \<lparr>chapters = [], currentChapter = None, currentContent = []\<rparr> lines)"

definition segmentChapters :: "jsstring \<Rightarrow> chapter_obj list" where
  "segmentChapters content = segmentLines (splitLines content)"

section \<open>Deduplicator: removeDuplicateChapters\<close>

text \<open>
  \<open>getFirstNChars\<close>: \<open>replace(/[^\u4e00-\u9fa5a-zA-Z0-9]/g, '')\<close> keeps the characters
  of the class, \<open>substring(0, n)\<close> takes the first \<open>n\<close> of them.
\<close>

definition isPlainChar :: "jschar \<Rightarrow> bool" where
  "isPlainChar c = ((0x4E00 \<le> c \<and> c \<le> 0x9FA5) \<or> (0x61 \<le> c \<and> c \<le> 0x7A)
     \<or> (0x41 \<le> c \<and> c \<le> 0x5A) \<or> (0x30 \<le> c \<and> c \<le> 0x39))"

definition getFirstNChars :: "jsstring \<Rightarrow> nat \<Rightarrow> jsstring" where
  "getFirstNChars text n = (let cleaned = filter isPlainChar text in take n cleaned)"

text \<open>
  \<open>title.match(/^DI(\d+)ZHANG/)\<close>: the capture group (the longest run of digits after
  \<open>DI\<close>, non-empty and followed by \<open>ZHANG\<close>), or \<open>None\<close> when the title does not match.
\<close>

definition chapterNumberPattern :: "jsstring \<Rightarrow> jsstring option" where
  "chapterNumberPattern t =
     (case t of
        [] \<Rightarrow> None
      | c # rest \<Rightarrow>
          if c \<noteq> ch_di then None
          else (let digits = takeWhile isDigit rest in
                if digits = [] then None
                else (case dropWhile isDigit rest of
                        [] \<Rightarrow> None
                      | z # after \<Rightarrow> if z = ch_zhang then Some digits else None)))"

text \<open>The number a title carries: \<open>parseInt(match[1], 10)\<close> when the title matches.\<close>

definition chapterNumber :: "chapter_obj \<Rightarrow> jsnumber option" where
  "chapterNumber c = map_option parseInt10 (chapterNumberPattern (title c))"

text \<open>
  \<open>chapterMap\<close> is a \<open>Map\<close> from numbers to arrays of chapters. A \<open>Map\<close> iterates in
  the order its keys were first set, so it is an association list: \<open>AList.update\<close>
  replaces the value of a key in place and puts a new key at the end.

  The first loop: one chapter is pushed onto the array of its number; a chapter whose title
  does not match is skipped. After \<open>set\<close> the lookup \<open>get\<close> always finds an array, so
  the case \<open>None\<close> of the lookup does not occur.
\<close>

type_synonym chapter_map = "(jsnumber \<times> chapter_obj list) list"

definition groupStep :: "chapter_map \<Rightarrow> chapter_obj \<Rightarrow> chapter_map" where
  "groupStep chapterMap c =
     (case chapterNumberPattern (title c) of
        None \<Rightarrow> chapterMap
      | Some digits \<Rightarrow>
          (let num = parseInt10 digits;
               m = (if map_of chapterMap num = None then AList.update num [] chapterMap
                    else chapterMap)
           in case map_of m num of
                None \<Rightarrow> m
              | Some chapterList \<Rightarrow> AList.update num (chapterList @ [c]) m))"

definition groupChapters :: "chapter_obj list \<Rightarrow> chapter_map" where
  "groupChapters cs = foldl groupStep [] cs"

text \<open>
  The inner loop \<open>for (const keptChapter of kept)\<close> with its \<open>break\<close>: the value of
  \<open>isDuplicate\<close> for a chapter whose fingerprint is \<open>currentFirst5\<close>.
\<close>

fun isDuplicate :: "jsstring \<Rightarrow> chapter_obj list \<Rightarrow> bool" where
  "isDuplicate currentFirst5 [] = False"
| "isDuplicate currentFirst5 (keptChapter # rest) =
     (let keptFirst5 = getFirstNChars (data keptChapter) 5
      in if currentFirst5 = keptFirst5 \<and> length currentFirst5 > 0 then True
         else isDuplicate currentFirst5 rest)"

text \<open>The loop \<open>for (let i = 1; i < chapterList.length; i++)\<close> over the rest of a group.\<close>

fun keptLoop :: "chapter_obj list \<Rightarrow> chapter_obj list \<Rightarrow> chapter_obj list" where
  "keptLoop kept [] = kept"
| "keptLoop kept (current # rest) =
     (let currentFirst5 = getFirstNChars (data current) 5
      in if isDuplicate currentFirst5 kept then keptLoop kept rest
         else keptLoop (kept @ [current]) rest)"

text \<open>
  What one entry of the map adds to \<open>uniqueChapters\<close>. An array of the map is never
  empty (it is pushed onto as soon as it is made), so the first case does not occur.
\<close>

definition dedupeGroup :: "chapter_obj list \<Rightarrow> chapter_obj list" where
  "dedupeGroup chapterList =
     (case chapterList of
        [] \<Rightarrow> []
      | first # rest \<Rightarrow> if length chapterList = 1 then [first] else keptLoop [first] rest)"

text \<open>
  The comparator given to \<open>sort\<close>. Of the difference \<open>a - b\<close> it returns, \<open>sort\<close>
  reads the sign only, and takes \<open>NaN\<close> (the difference of two infinite numbers) as 0; the
  rounded difference of two doubles has the sign of the exact one. \<open>numDifference\<close> is the
  difference as far as \<open>sort\<close> reads it.

  \<open>Array.prototype.sort\<close> itself: the sort is stable, and with a consistent comparator its
  result is the stable sorted arrangement, which insertion from the right computes. The
  comparator is consistent on the array that is sorted: every chapter in it carries a number
  (\<open>uniqueChapters_numbered\<close> below), so the comparator orders by the numbers.
\<close>

definition numDifference :: "jsnumber \<Rightarrow> jsnumber \<Rightarrow> int" where
  "numDifference a b =
     (case (a, b) of
        (enat x, enat y) \<Rightarrow> int x - int y
      | (enat x, \<infinity>) \<Rightarrow> - 1
      | (\<infinity>, enat y) \<Rightarrow> 1
      | (\<infinity>, \<infinity>) \<Rightarrow> 0)"

definition compareChapters :: "chapter_obj \<Rightarrow> chapter_obj \<Rightarrow> int" where
  "compareChapters a b =
     (case (chapterNumberPattern (title a), chapterNumberPattern (title b)) of
        (Some matchA, Some matchB) \<Rightarrow> numDifference (parseInt10 matchA) (parseInt10 matchB)
      | _ \<Rightarrow> 0)"

fun insertSorted :: "('a \<Rightarrow> 'a \<Rightarrow> int) \<Rightarrow> 'a \<Rightarrow> 'a list \<Rightarrow> 'a list" where
  "insertSorted cmp x [] = [x]"
| "insertSorted cmp x (y # ys) =
     (if cmp x y \<le> 0 then x # y # ys else y # insertSorted cmp x ys)"

definition sortArray :: "('a \<Rightarrow> 'a \<Rightarrow> int) \<Rightarrow> 'a list \<Rightarrow> 'a list" where
  "sortArray cmp xs = foldr (insertSorted cmp) xs []"

definition removeDuplicateChapters :: "chapter_obj list \<Rightarrow> chapter_obj list" where
  "removeDuplicateChapters cs =
     (let chapterMap = groupChapters cs;
          uniqueChapters = concat (map (\<lambda>(num, chapterList). dedupeGroup chapterList) chapterMap)
      in sortArray compareChapters uniqueChapters)"

definition splitIntoChapters :: "jsstring \<Rightarrow> chapter_obj list" where
  "splitIntoChapters content = removeDuplicateChapters (segmentChapters content)"

section \<open>StatsCollector: countTotalWords\<close>

definition countTotalWords :: "chapter_obj list \<Rightarrow> jsnumber" where
  "countTotalWords cs =
     foldl (\<lambda>totalWords c.
              numAdd totalWords (enat (length (filter (\<lambda>ch. \<not> isSpace ch) (data c))))) 0 cs"

section \<open>LineFilter and the conversion: processTextFile, convertTxtToEpub\<close>

text \<open>\<open>line.includes(keyword)\<close>: the keyword occurs in the line.\<close>

fun stringIncludes :: "jsstring \<Rightarrow> jsstring \<Rightarrow> bool" where
  "stringIncludes [] keyword = (keyword = [])"
| "stringIncludes (c # cs) keyword =
     (take (length keyword) (c # cs) = keyword \<or> stringIncludes cs keyword)"

text \<open>
  The filter of \<open>processTextFile\<close>, with the count it logs:
  \<open>lines.filter(line => !adKeywords.some(keyword => line.includes(keyword)))\<close>.
\<close>

definition filterAdLines :: "jsstring list \<Rightarrow> jsstring list \<Rightarrow> jsstring list \<times> nat" where
  "filterAdLines adKeywords lines =
     (let filteredLines = filter (\<lambda>line. \<not> list_ex (\<lambda>keyword. stringIncludes line keyword) adKeywords) lines;
          filteredCount = length lines - length filteredLines
      in (filteredLines, filteredCount))"

text \<open>
  The errors the conversion throws. The file system is a partial map from paths to the
  decoded content of the files that exist; a file that exists is taken to be readable.
\<close>

datatype error = MissingParameters | FileNotFound | NoChaptersFound | PackagingFailed

type_synonym file_system = "jsstring \<Rightarrow> jsstring option"

record converter_options =
  filterAds :: bool
  adKeywords :: "jsstring list"

definition processTextFile :: "file_system \<Rightarrow> converter_options \<Rightarrow> jsstring \<Rightarrow> error + jsstring" where
  "processTextFile fs opts filePath =
     (case fs filePath of
        None \<Rightarrow> Inl FileNotFound
      | Some raw \<Rightarrow>
          (let content = (case raw of c # rest \<Rightarrow> if c = 0xFEFF then rest else raw | [] \<Rightarrow> raw)
           in if filterAds opts
              then Inr (joinLines (fst (filterAdLines (adKeywords opts) (splitLines content))))
              else Inr content))"

text \<open>
  The options of \<open>convertTxtToEpub\<close>; \<open>None\<close> is a property that is not given. The
  first five are required: \<open>!x\<close> holds of a missing and of an empty string.
\<close>

record convert_options =
  inputFile :: "jsstring option"
  outputFile :: "jsstring option"
  bookTitle :: "jsstring option"
  author :: "jsstring option"
  maker :: "jsstring option"
  optAdKeywords :: "jsstring list option"

text \<open>The object the conversion returns (\<open>chapters\<close> is the number of chapters).\<close>

record conversion_result =
  resultFile :: jsstring
  chapterCount :: nat
  totalWords :: jsnumber

text \<open>
  The first step of \<open>convertTxtToEpub\<close>: the converter's own options \<open>this.options\<close>
  are updated from the \<open>adKeywords\<close> given to the call.
\<close>

definition adOptions :: "converter_options \<Rightarrow> jsstring list option \<Rightarrow> converter_options" where
  "adOptions this_options kws =
     (case kws of
        Some ks \<Rightarrow>
          if length ks > 0 then this_options\<lparr>adKeywords := ks, filterAds := True\<rparr>
          else this_options\<lparr>filterAds := False\<rparr>
      | None \<Rightarrow> this_options\<lparr>filterAds := False\<rparr>)"

text \<open>
  \<open>convertTxtToEpub\<close>. The packaging by the external library \<open>epub-gen\<close> is the
  parameter \<open>pack\<close>: it is given the chapters and tells whether its promise is fulfilled.
  The pages rendered for it (cover, book information, paragraphs) compute no value the
  result depends on and are left out.
\<close>

definition convertTxtToEpub ::
    "(chapter_obj list \<Rightarrow> bool) \<Rightarrow> file_system \<Rightarrow> converter_options \<Rightarrow> convert_options
      \<Rightarrow> error + conversion_result" where
  "convertTxtToEpub pack fs this_options options =
     (if \<not> truthy (inputFile options) \<or> \<not> truthy (outputFile options)
         \<or> \<not> truthy (bookTitle options) \<or> \<not> truthy (author options)
         \<or> \<not> truthy (maker options)
      then Inl MissingParameters
      else
        (case (inputFile options, outputFile options) of
           (Some inputPath, Some outputPath) \<Rightarrow>
             (case processTextFile fs (adOptions this_options (optAdKeywords options)) inputPath of
                Inl e \<Rightarrow> Inl e
              | Inr processedContent \<Rightarrow>
                  (let chs = splitIntoChapters processedContent
                   in if length chs = 0 then Inl NoChaptersFound
                      else (let total = countTotalWords chs
                            in if pack chs
                               then Inr \<lparr>resultFile = outputPath,
                                        chapterCount = length chs, totalWords = total\<rparr>
                               else Inl PackagingFailed)))
         | _ \<Rightarrow> Inl MissingParameters))"

section \<open>The Normalizer as the specification words it\<close>

text \<open>
  The specification's reading of a numeral: every character is a digit symbol, a unit
  symbol or unrecognized; one pass keeps the completed sections, the current section and
  the pending digit. A token of decimal digits is read positionally. The sums and products
  are those of the numbers of the program.
\<close>

datatype symbol = DigitSymbol nat | UnitSymbol nat | Unrecognized

definition classify :: "jschar \<Rightarrow> symbol" where
  "classify c =
     (if c = 0x96F6 then DigitSymbol 0 else if c = 0x4E00 then DigitSymbol 1
      else if c = 0x4E8C \<or> c = 0x4E24 then DigitSymbol 2 else if c = 0x4E09 then DigitSymbol 3
      else if c = 0x56DB then DigitSymbol 4 else if c = 0x4E94 then DigitSymbol 5
      else if c = 0x516D then DigitSymbol 6 else if c = 0x4E03 then DigitSymbol 7
      else if c = 0x516B then DigitSymbol 8 else if c = 0x4E5D then DigitSymbol 9
      else if c = 0x5341 then UnitSymbol 10 else if c = 0x767E then UnitSymbol 100
      else if c = 0x5343 then UnitSymbol 1000 else if c = 0x4E07 then UnitSymbol 10000
      else if c = 0x4EBF then UnitSymbol 100000000 else Unrecognized)"

fun accumulate :: "jsnumber \<times> jsnumber \<times> jsnumber \<Rightarrow> symbol list \<Rightarrow> jsnumber" where
  "accumulate (res, sec, pending) [] = numAdd (numAdd res sec) pending"
| "accumulate (res, sec, pending) (DigitSymbol d # syms) = accumulate (res, sec, enat d) syms"
| "accumulate (res, sec, pending) (UnitSymbol u # syms) =
     (if u \<ge> 10000
      then accumulate (numAdd res (numMul (numAdd sec pending) (enat u)), 0, 0) syms
      else accumulate
             (res, numAdd sec (numMul (if pending = 0 then 1 else pending) (enat u)), 0) syms)"
| "accumulate (res, sec, pending) (Unrecognized # syms) = accumulate (res, sec, 0) syms"

fun decimalValue :: "jsstring \<Rightarrow> nat" where
  "decimalValue [] = 0"
| "decimalValue (c # cs) = (unat c - 0x30) * 10 ^ length cs + decimalValue cs"

definition normalizeSpec :: "jsstring \<Rightarrow> jsnumber option" where
  "normalizeSpec token =
     (if token = [] then None
      else if list_all (\<lambda>c. 0x30 \<le> c \<and> c \<le> 0x39) token
      then Some (roundDouble (decimalValue token))
      else Some (accumulate (0, 0, 0) (map classify token)))"

section \<open>The Deduplicator's notions as the specification words them\<close>

text \<open>
  The number of a chapter as its title writes it: the exact decimal value of the digits
  between the two characters of the title.
\<close>

definition writtenNumber :: "chapter_obj \<Rightarrow> nat option" where
  "writtenNumber c = map_option decimalValue (chapterNumberPattern (title c))"

text \<open>
  The fingerprint as the specification words it: the first 5 characters of the body after removing
  every character that is not a CJK ideograph or ASCII alphanumeric. Among the code units,
  the CJK ideographs are those of the blocks CJK Unified Ideographs Extension A
  (U+3400..U+4DBF), CJK Unified Ideographs (U+4E00..U+9FFF) and CJK Compatibility Ideographs
  (U+F900..U+FAFF).
\<close>

definition isCJKIdeograph :: "jschar \<Rightarrow> bool" where
  "isCJKIdeograph c = ((0x3400 \<le> c \<and> c \<le> 0x4DBF) \<or> (0x4E00 \<le> c \<and> c \<le> 0x9FFF)
     \<or> (0xF900 \<le> c \<and> c \<le> 0xFAFF))"

definition isAsciiAlphanumeric :: "jschar \<Rightarrow> bool" where
  "isAsciiAlphanumeric c = ((0x30 \<le> c \<and> c \<le> 0x39) \<or> (0x41 \<le> c \<and> c \<le> 0x5A)
     \<or> (0x61 \<le> c \<and> c \<le> 0x7A))"

definition fingerprintSpec :: "jsstring \<Rightarrow> jsstring" where
  "fingerprintSpec body = take 5 (filter (\<lambda>c. isCJKIdeograph c \<or> isAsciiAlphanumeric c) body)"

section \<open>Auxiliary notions for the Normalizer\<close>

text \<open>
  \<open>isDoubleValue\<close> holds of the numbers that are doubles: \<open>+Infinity\<close>, and the
  integers that rounding leaves as they are.
\<close>

definition isDoubleValue :: "jsnumber \<Rightarrow> bool" where
  "isDoubleValue x = (case x of enat n \<Rightarrow> roundDouble n = enat n | \<infinity> \<Rightarrow> True)"

text \<open>
  What the loop of \<open>chineseNumeralToNumber\<close> keeps true of its three variables: the
  pending digit is at most 9, and the section and the result are doubles that stay at or
  below \<open>2^68\<close> and \<open>2^150\<close>.
\<close>

definition numeralInv :: "numeral_state \<Rightarrow> bool" where
  "numeralInv st = (number st \<le> enat 9
     \<and> isDoubleValue (section' st) \<and> section' st \<le> enat (2 ^ 68)
     \<and> isDoubleValue (result st) \<and> result st \<le> enat (2 ^ 150))"

section \<open>Auxiliary notions for the Deduplicator\<close>

text \<open>
  The number of a chapter whose title matches (0 for the others, which no group holds), and
  the group of a number: the chapters of the input that carry it, in input order.
\<close>

definition numOf :: "chapter_obj \<Rightarrow> jsnumber" where
  "numOf c = (case chapterNumber c of Some n \<Rightarrow> n | None \<Rightarrow> 0)"

definition groupOf :: "jsnumber \<Rightarrow> chapter_obj list \<Rightarrow> chapter_obj list" where
  "groupOf n cs = filter (\<lambda>c. chapterNumber c = Some n) cs"

text \<open>The array \<open>uniqueChapters\<close> as it is before the sort.\<close>

definition uniqueChapters :: "chapter_obj list \<Rightarrow> chapter_obj list" where
  "uniqueChapters cs = concat (map (\<lambda>(num, chapterList). dedupeGroup chapterList) (groupChapters cs))"

section \<open>Auxiliary notions for the ChapterSegmenter\<close>

text \<open>
  The shape of a title built from a number and a suffix, and the suffixes a heading can
  give: trimmed, and without line terminators.
\<close>

definition canonicalTitle :: "jsnumber \<Rightarrow> jsstring \<Rightarrow> jsstring" where
  "canonicalTitle n sfx =
     ch_di # numberToString n @ ch_zhang # (if sfx \<noteq> [] then ch_space # sfx else [])"

definition cleanSuffix :: "jsstring \<Rightarrow> bool" where
  "cleanSuffix sfx = (list_all (\<lambda>c. \<not> isLineTerminator c) sfx
     \<and> (sfx = [] \<or> (\<not> isSpace (hd sfx) \<and> \<not> isSpace (last sfx))))"

text \<open>
  A chapter as the segmenter makes it: a canonical title and a body that is trimmed and not
  empty. \<open>chapterBody\<close> is the body made from the collected lines.
\<close>

definition wfChapter :: "chapter_obj \<Rightarrow> bool" where
  "wfChapter c = ((\<exists>x sfx. title c = canonicalTitle x sfx \<and> cleanSuffix sfx \<and> isDoubleValue x)
     \<and> data c \<noteq> [] \<and> trim (data c) = data c)"


definition chapterBody :: "jsstring list \<Rightarrow> jsstring" where
  "chapterBody content =
     (if trim (joinLines content) \<noteq> [] then trim (joinLines content) else emptyChapterText)"

definition segInv :: "segmenter_state \<Rightarrow> bool" where
  "segInv st = (list_all wfChapter (chapters st)
     \<and> (case currentChapter st of
          None \<Rightarrow> chapters st = []
        | Some t \<Rightarrow> \<exists>x sfx. t = canonicalTitle x sfx \<and> cleanSuffix sfx \<and> isDoubleValue x))"

section \<open>Re-serializing chapters, as the specification words it\<close>


section \<open>Properties of the numbers\<close>

lemma bitLength_0 [simp]: "bitLength 0 = 0"
  by (simp add: bitLength.simps)

lemma bitLength_bounds: "0 < n \<Longrightarrow> 2 ^ bitLength n \<le> 2 * n \<and> n < 2 ^ bitLength n"
proof (induction n rule: bitLength.induct)
  case (1 n)
  show ?case
  proof (cases "n div 2 = 0")
    case True
    with "1.prems" have "n = 1" by (simp add: div_eq_0_iff) 
    then show ?thesis by (simp add: bitLength.simps)
  next
    case False
    then have "0 < n div 2" by simp
    with "1.IH" "1.prems" have IH: "2 ^ bitLength (n div 2) \<le> 2 * (n div 2)"
      "n div 2 < 2 ^ bitLength (n div 2)" by simp_all
    have b: "bitLength n = Suc (bitLength (n div 2))"
      using "1.prems" by (subst bitLength.simps) simp
    have "2 * (n div 2) \<le> n" by simp
    with IH(1) have lower: "2 ^ bitLength n \<le> 2 * n" by (simp add: b)
    have "n < 2 * (n div 2) + 2" by presburger
    with IH(2) have "n < 2 ^ bitLength n" by (simp add: b)
    with lower show ?thesis by simp
  qed
qed

lemma bitLength_unique:
  assumes "2 ^ k \<le> n" and "n < 2 ^ Suc k"
  shows "bitLength n = Suc k"
proof -
  from assms(1) have pos: "0 < n" by (metis less_le_trans zero_less_numeral zero_less_power)
  from bitLength_bounds [OF pos] have lo: "2 ^ bitLength n \<le> 2 * n" and hi: "n < 2 ^ bitLength n"
    by simp_all
  from lo assms(2) have "(2::nat) ^ bitLength n < 2 ^ Suc (Suc k)" by simp
  then have "bitLength n < Suc (Suc k)" by (simp only: power_strict_increasing_iff) 
  moreover from assms(1) hi have "(2::nat) ^ k < 2 ^ bitLength n" by (rule le_less_trans)
  then have "k < bitLength n" by (simp only: power_strict_increasing_iff)
  ultimately show ?thesis by simp
qed

lemma roundDouble_small: "n < 2 ^ 53 \<Longrightarrow> roundDouble n = enat n"
  by (simp add: roundDouble_def)

text \<open>An integer of 53 significant bits is left as it is.\<close>

lemma roundDouble_exact:
  assumes q: "2 ^ 52 \<le> q" "q < 2 ^ 53" and e: "1 \<le> e" and fin: "q * 2 ^ e < 2 ^ 1024"
  shows "roundDouble (q * 2 ^ e) = enat (q * 2 ^ e)"
proof -
  let ?n = "q * 2 ^ e"
  have "(2::nat) ^ (e + 52) = 2 ^ 52 * 2 ^ e" by (simp add: power_add)
  also have "\<dots> \<le> ?n" using q(1) by simp
  finally have lo: "2 ^ (e + 52) \<le> ?n" .
  have "?n < 2 ^ 53 * 2 ^ e" using q(2) by simp
  also have "\<dots> = (2::nat) ^ Suc (e + 52)" by (simp add: power_add)
  finally have hi: "?n < 2 ^ Suc (e + 52)" .
  from lo hi have b: "bitLength ?n = Suc (e + 52)" by (rule bitLength_unique)
  have "(2::nat) ^ 53 \<le> 2 ^ (e + 52)" using e by (intro power_increasing) simp_all
  with lo have big: "\<not> ?n < 2 ^ 53" by simp
  have half: "(0::nat) < 2 ^ (e - 1)" by simp
  show ?thesis
    using big fin half by (simp add: roundDouble_def b Let_def)
qed

text \<open>What rounding makes of an integer from \<open>2^53\<close> on.\<close>

lemma roundDouble_cases:
  assumes "2 ^ 53 \<le> n"
  obtains q e where "1 \<le> e" and "bitLength n = e + 53" and "2 ^ 52 \<le> q" and "q \<le> 2 ^ 53"
    and "roundDouble n = (if q * 2 ^ e < 2 ^ 1024 then enat (q * 2 ^ e) else \<infinity>)"
proof -
  from assms have pos: "0 < n" by (metis less_le_trans zero_less_numeral zero_less_power)
  from bitLength_bounds [OF pos] have lo: "2 ^ bitLength n \<le> 2 * n" and hi: "n < 2 ^ bitLength n"
    by simp_all
  from hi assms have "(2::nat) ^ 53 < 2 ^ bitLength n" by simp
  then have b53: "53 < bitLength n" by (simp only: power_strict_increasing_iff)
  define e where "e = bitLength n - 53"
  with b53 have e: "1 \<le> e" and b: "bitLength n = e + 53" by simp_all
  define q where "q = n div 2 ^ e"
  have "n < 2 ^ 53 * 2 ^ e" using hi by (simp add: b power_add mult.commute)
  then have qhi: "q < 2 ^ 53" unfolding q_def by (simp add: less_mult_imp_div_less)
  have "(2::nat) ^ 52 * 2 ^ e * 2 = 2 ^ bitLength n" by (simp add: b power_add)
  with lo have "2 ^ 52 * 2 ^ e \<le> n" by simp
  then have qlo: "2 ^ 52 \<le> q" unfolding q_def by (simp add: less_eq_div_iff_mult_less_eq)
  define q' where "q' = (if 2 ^ (e - 1) < n mod 2 ^ e \<or> (n mod 2 ^ e = 2 ^ (e - 1) \<and> odd q)
                         then q + 1 else q)"
  have "2 ^ 52 \<le> q'" and "q' \<le> 2 ^ 53" using qlo qhi by (simp_all add: q'_def)
  moreover have "roundDouble n = (if q' * 2 ^ e < 2 ^ 1024 then enat (q' * 2 ^ e) else \<infinity>)"
    using assms by (simp add: roundDouble_def Let_def e_def [symmetric] q_def [symmetric] q'_def)
  ultimately show ?thesis using e b that by blast
qed

lemma roundDouble_idem: "roundDouble n = enat m \<Longrightarrow> roundDouble m = enat m"
proof (cases "n < 2 ^ 53")
  case True
  assume "roundDouble n = enat m"
  with True show ?thesis by (simp add: roundDouble_small)
next
  case False
  assume r: "roundDouble n = enat m"
  from False have "2 ^ 53 \<le> n" by simp
  then obtain q e where e: "1 \<le> e" and q: "2 ^ 52 \<le> q" "q \<le> 2 ^ 53"
    and rd: "roundDouble n = (if q * 2 ^ e < 2 ^ 1024 then enat (q * 2 ^ e) else \<infinity>)"
    by (rule roundDouble_cases)
  from r rd have fin: "q * 2 ^ e < 2 ^ 1024" and m: "m = q * 2 ^ e"
    by (simp_all split: if_splits)
  show ?thesis
  proof (cases "q < 2 ^ 53")
    case True
    with q(1) e fin show ?thesis unfolding m by (intro roundDouble_exact)
  next
    case False
    with q(2) have q53: "q = 2 ^ 53" by simp
    have m': "m = 2 ^ 52 * 2 ^ (e + 1)" by (simp add: m q53)
    have "roundDouble (2 ^ 52 * 2 ^ (e + 1)) = enat (2 ^ 52 * 2 ^ (e + 1))"
      using fin m m' by (intro roundDouble_exact) simp_all
    then show ?thesis by (simp only: m')
  qed
qed

text \<open>Rounding stays below a power of two, and is infinite from \<open>2^1024\<close> on.\<close>

lemma roundDouble_bound:
  assumes "n \<le> 2 ^ k" and "k < 1024"
  shows "\<exists>m. roundDouble n = enat m \<and> m \<le> 2 ^ k"
proof (cases "n < 2 ^ 53")
  case True
  with assms(1) show ?thesis by (simp add: roundDouble_small)
next
  case False
  then have big: "2 ^ 53 \<le> n" by simp
  have k1024: "(2::nat) ^ k < 2 ^ 1024" using assms(2) by (intro power_strict_increasing) simp_all
  show ?thesis
  proof (cases "n = 2 ^ k")
    case True
    from big True have "(2::nat) ^ 53 \<le> 2 ^ k" by simp
    then have "53 \<le> k" by (simp only: power_increasing_iff)
    then have k: "k = 52 + (k - 52)" and e: "1 \<le> k - 52" by simp_all
    have nk: "n = 2 ^ 52 * 2 ^ (k - 52)" by (subst True, subst k) (simp only: power_add)
    have "roundDouble (2 ^ 52 * 2 ^ (k - 52)) = enat (2 ^ 52 * 2 ^ (k - 52))"
      using e k1024 True nk by (intro roundDouble_exact) simp_all
    then show ?thesis using nk True by simp
  next
    case False
    with assms(1) have less: "n < 2 ^ k" by simp
    from big obtain q e where b: "bitLength n = e + 53" and q: "q \<le> 2 ^ 53"
      and rd: "roundDouble n = (if q * 2 ^ e < 2 ^ 1024 then enat (q * 2 ^ e) else \<infinity>)"
      by (rule roundDouble_cases)
    from big have pos: "0 < n" by (metis less_le_trans zero_less_numeral zero_less_power)
    from bitLength_bounds [OF pos] have "2 ^ bitLength n \<le> 2 * n" by simp
    with less have "(2::nat) ^ bitLength n < 2 ^ Suc k" by simp
    then have "bitLength n < Suc k" by (simp only: power_strict_increasing_iff)
    then have "e + 53 \<le> k" using b by simp
    then have pk: "(2::nat) ^ (e + 53) \<le> 2 ^ k" by (intro power_increasing) simp_all
    have "q * 2 ^ e \<le> 2 ^ 53 * 2 ^ e" using q by simp
    then have "q * 2 ^ e \<le> 2 ^ (e + 53)" by (simp add: power_add mult.commute)
    then have le: "q * 2 ^ e \<le> 2 ^ k" using pk by (rule le_trans)
    with k1024 have "q * 2 ^ e < 2 ^ 1024" by simp
    with rd le show ?thesis by simp
  qed
qed

lemma roundDouble_infinite: "2 ^ 1024 \<le> n \<Longrightarrow> roundDouble n = \<infinity>"
proof -
  assume big: "2 ^ 1024 \<le> n"
  have "(2::nat) ^ 53 \<le> 2 ^ 1024" by (intro power_increasing) simp_all
  with big have "2 ^ 53 \<le> n" by simp
  then obtain q e where b: "bitLength n = e + 53" and q: "2 ^ 52 \<le> q"
    and rd: "roundDouble n = (if q * 2 ^ e < 2 ^ 1024 then enat (q * 2 ^ e) else \<infinity>)"
    by (rule roundDouble_cases)
  from big have pos: "0 < n" by (metis less_le_trans zero_less_numeral zero_less_power)
  from bitLength_bounds [OF pos] have "n < 2 ^ bitLength n" by simp
  with big have "(2::nat) ^ 1024 < 2 ^ (e + 53)" by (simp add: b)
  then have "1024 < e + 53" by (simp only: power_strict_increasing_iff)
  then have "1024 \<le> e + 52" by simp
  then have "(2::nat) ^ 1024 \<le> 2 ^ (e + 52)" by (intro power_increasing) simp_all
  also have "\<dots> = 2 ^ 52 * 2 ^ e" by (simp add: power_add)
  also have "\<dots> \<le> q * 2 ^ e" using q by simp
  finally have "\<not> q * 2 ^ e < 2 ^ 1024" by simp
  with rd show ?thesis by simp
qed

text \<open>The numbers of the program are doubles.\<close>

lemma isDoubleValue_roundDouble: "isDoubleValue (roundDouble n)"
proof (cases "roundDouble n")
  case (enat m)
  then show ?thesis using roundDouble_idem [of n m] by (simp add: isDoubleValue_def)
next
  case infinity
  then show ?thesis by (simp add: isDoubleValue_def)
qed

lemma isDoubleValue_numAdd: "isDoubleValue (numAdd a b)"
  by (simp add: numAdd_def isDoubleValue_roundDouble) (simp add: isDoubleValue_def)

lemma isDoubleValue_numMul: "isDoubleValue (numMul a b)"
  by (simp add: numMul_def isDoubleValue_roundDouble) (simp add: isDoubleValue_def)

lemma isDoubleValue_enat: "isDoubleValue (enat n) \<longleftrightarrow> roundDouble n = enat n"
  by (simp add: isDoubleValue_def)

text \<open>Rounding does not pass a double that bounds the integer.\<close>

lemma bitLength_double:
  assumes "2 ^ 52 \<le> q" and "q < 2 ^ 53"
  shows "bitLength (q * 2 ^ e) = e + 53"
proof -
  have "(2::nat) ^ (e + 52) = 2 ^ 52 * 2 ^ e" by (simp add: power_add)
  also have "\<dots> \<le> q * 2 ^ e" using assms(1) by simp
  finally have lo: "2 ^ (e + 52) \<le> q * 2 ^ e" .
  have "q * 2 ^ e < 2 ^ 53 * 2 ^ e" using assms(2) by simp
  also have "\<dots> = (2::nat) ^ Suc (e + 52)" by (simp add: power_add)
  finally have hi: "q * 2 ^ e < 2 ^ Suc (e + 52)" .
  from lo hi have "bitLength (q * 2 ^ e) = Suc (e + 52)" by (rule bitLength_unique)
  then show ?thesis by simp
qed

lemma bitLength_mono:
  assumes "m \<le> n"
  shows "bitLength m \<le> bitLength n"
proof (cases "m = 0")
  case True
  then show ?thesis by simp
next
  case False
  then have m: "0 < m" by simp
  with assms have n: "0 < n" by simp
  from bitLength_bounds [OF m] have "2 ^ bitLength m \<le> 2 * m" by simp
  also have "\<dots> \<le> 2 * n" using assms by simp
  also have "\<dots> < 2 * 2 ^ bitLength n" using bitLength_bounds [OF n] by simp
  finally have "(2::nat) ^ bitLength m < 2 ^ Suc (bitLength n)" by simp
  then have "bitLength m < Suc (bitLength n)" by (simp only: power_strict_increasing_iff)
  then show ?thesis by simp
qed

lemma roundDouble_le_double:
  assumes n: "n \<le> q0 * 2 ^ e0" and q0: "2 ^ 52 \<le> q0" "q0 < 2 ^ 53" and e0: "1 \<le> e0"
    and fin: "q0 * 2 ^ e0 < 2 ^ 1024"
  shows "\<exists>m. roundDouble n = enat m \<and> m \<le> q0 * 2 ^ e0"
proof (cases "n < 2 ^ 53")
  case True
  with n show ?thesis by (simp add: roundDouble_small)
next
  case False
  then have big: "2 ^ 53 \<le> n" by simp
  let ?D = "q0 * 2 ^ e0"
  have bD: "bitLength ?D = e0 + 53" using q0 by (rule bitLength_double)
  have lowD: "2 ^ (e0 + 52) \<le> ?D"
  proof -
    have "(2::nat) ^ (e0 + 52) = 2 ^ 52 * 2 ^ e0" by (simp add: power_add)
    also have "\<dots> \<le> ?D" using q0(1) by simp
    finally show ?thesis .
  qed
  from bitLength_mono [OF n] bD have bn: "bitLength n \<le> e0 + 53" by simp
  from big have pos: "0 < n" by (metis less_le_trans zero_less_numeral zero_less_power)
  show ?thesis
  proof (cases "bitLength n = e0 + 53")
    case False
    with bn have "bitLength n \<le> e0 + 52" by simp
    then have "(2::nat) ^ bitLength n \<le> 2 ^ (e0 + 52)" by (intro power_increasing) simp_all
    moreover from bitLength_bounds [OF pos] have "n < 2 ^ bitLength n" by simp
    ultimately have "n < 2 ^ (e0 + 52)" by (rule less_le_trans [rotated])
    then have le: "n \<le> 2 ^ (e0 + 52)" by (rule less_imp_le)
    from lowD fin have "(2::nat) ^ (e0 + 52) < 2 ^ 1024" by (rule le_less_trans)
    then have "e0 + 52 < 1024" by (simp only: power_strict_increasing_iff)
    from roundDouble_bound [OF le this] obtain m
      where "roundDouble n = enat m" "m \<le> 2 ^ (e0 + 52)" by blast
    with lowD show ?thesis by auto
  next
    case True
    then have e: "bitLength n - 53 = e0" by simp
    define q where "q = n div 2 ^ e0"
    define r where "r = n mod 2 ^ e0"
    define q' where "q' = (if 2 ^ (e0 - 1) < r \<or> (r = 2 ^ (e0 - 1) \<and> odd q) then q + 1 else q)"
    have rd: "roundDouble n = (if q' * 2 ^ e0 < 2 ^ 1024 then enat (q' * 2 ^ e0) else \<infinity>)"
      using False by (simp add: roundDouble_def Let_def e q_def r_def q'_def)
    have "n div 2 ^ e0 \<le> ?D div 2 ^ e0" using n by (rule div_le_mono)
    then have qle: "q \<le> q0" by (simp add: q_def)
    have nqr: "n = q * 2 ^ e0 + r" unfolding q_def r_def by (rule div_mult_mod_eq [symmetric])
    have "q' \<le> q0"
    proof (cases "q = q0")
      case True
      with n nqr have "r = 0" by simp
      then have "q' = q" by (simp add: q'_def)
      with True show ?thesis by simp
    next
      case False
      with qle have "q + 1 \<le> q0" by simp
      then show ?thesis by (simp add: q'_def)
    qed
    then have le: "q' * 2 ^ e0 \<le> ?D" by simp
    from le fin have "q' * 2 ^ e0 < 2 ^ 1024" by (rule le_less_trans)
    with rd le show ?thesis by simp
  qed
qed

text \<open>
  A sum stays at or below \<open>2^(k+54)\<close> when a number of at most \<open>2^k\<close> is added to a
  double, however often: next to \<open>2^(k+54)\<close> such a summand is rounded away.
\<close>

lemma double_multiple:
  assumes "roundDouble s = enat s" and "2 ^ 53 \<le> s"
  shows "\<exists>q. s = q * 2 ^ (bitLength s - 53) \<and> q \<le> 2 ^ 53"
proof -
  from assms(2) obtain q e where "bitLength s = e + 53" and "q \<le> 2 ^ 53"
    and "roundDouble s = (if q * 2 ^ e < 2 ^ 1024 then enat (q * 2 ^ e) else \<infinity>)"
    by (rule roundDouble_cases)
  with assms(1) have "s = q * 2 ^ (bitLength s - 53)" by (simp split: if_splits)
  with \<open>q \<le> 2 ^ 53\<close> show ?thesis by blast
qed

lemma div_mod_mult_add:
  fixes a b d :: nat
  assumes "d < b"
  shows "(a * b + d) div b = a" and "(a * b + d) mod b = d"
  using assms by simp_all

lemma roundDouble_add_cap:
  assumes dbl: "roundDouble s = enat s" and s: "s \<le> 2 ^ (k + 54)" and d: "d \<le> 2 ^ k"
    and k: "k + 54 < 1024"
  shows "\<exists>m. roundDouble (s + d) = enat m \<and> m \<le> 2 ^ (k + 54)"
proof -
  have p1: "(2::nat) ^ (k + 54) = 2 * 2 ^ (k + 53)" by (simp add: power_add)
  have p2: "(2::nat) ^ (k + 53) = 2 ^ 53 * 2 ^ k" by (simp add: power_add)
  have dk: "d \<le> 2 ^ (k + 53)"
  proof -
    have "(2::nat) ^ k \<le> 2 ^ (k + 53)" by (intro power_increasing) simp_all
    with d show ?thesis by (rule le_trans)
  qed
  consider "s \<le> 2 ^ (k + 53)" | "2 ^ (k + 53) < s" "s < 2 ^ (k + 54)" | "s = 2 ^ (k + 54)"
    using s by linarith
  then show ?thesis
  proof cases
    case 1
    with dk have "s + d \<le> 2 ^ (k + 54)" by (simp add: p1)
    then show ?thesis using k by (rule roundDouble_bound)
  next
    case 2
    have "(2::nat) ^ 53 \<le> 2 ^ (k + 53)" by (intro power_increasing) simp_all
    with 2(1) have big: "2 ^ 53 \<le> s" by simp
    from 2(1) have "2 ^ (k + 53) \<le> s" by simp
    moreover have "Suc (k + 53) = k + 54" by simp
    with 2(2) have "s < 2 ^ Suc (k + 53)" by (simp only:)
    ultimately have "bitLength s = Suc (k + 53)" by (rule bitLength_unique)
    then have e: "bitLength s - 53 = k + 1" by simp
    from double_multiple [OF dbl big] obtain q where q: "s = q * 2 ^ (k + 1)"
      by (auto simp: e)
    have "(2::nat) ^ (k + 54) = 2 ^ 53 * 2 ^ (k + 1)" by (simp add: power_add)
    with 2(2) q have "q * 2 ^ (k + 1) < 2 ^ 53 * 2 ^ (k + 1)" by simp
    then have "q < 2 ^ 53" by simp
    then have "q + 1 \<le> 2 ^ 53" by simp
    then have "(q + 1) * 2 ^ (k + 1) \<le> 2 ^ 53 * 2 ^ (k + 1)" by (rule mult_le_mono1)
    then have "s + 2 ^ (k + 1) \<le> 2 ^ (k + 54)"
      by (simp add: q power_add algebra_simps)
    moreover have "d \<le> 2 ^ (k + 1)" using d by simp
    ultimately have "s + d \<le> 2 ^ (k + 54)" by simp
    then show ?thesis using k by (rule roundDouble_bound)
  next
    case 3
    let ?n = "2 ^ (k + 54) + d"
    have lo: "2 ^ (k + 54) \<le> ?n" by simp
    have "?n \<le> 2 ^ (k + 54) + 2 ^ k" using d by simp
    also have "\<dots> < (2::nat) ^ (k + 54) + 2 ^ (k + 54)"
      by (simp add: power_strict_increasing)
    finally have "?n < 2 ^ (k + 54) + 2 ^ (k + 54)" .
    moreover have "(2::nat) ^ Suc (k + 54) = 2 ^ (k + 54) + 2 ^ (k + 54)"
      by (simp only: power_Suc mult_2)
    ultimately have hi: "?n < 2 ^ Suc (k + 54)" by (simp only:)
    from lo hi have b: "bitLength ?n = Suc (k + 54)" by (rule bitLength_unique)
    then have e: "bitLength ?n - 53 = k + 2" by simp
    have "(2::nat) ^ 53 \<le> 2 ^ (k + 54)" by (intro power_increasing) simp_all
    with lo have big: "\<not> ?n < 2 ^ 53" by simp
    have c: "(2::nat) ^ (k + 54) = 2 ^ 52 * 2 ^ (k + 2)" by (simp add: power_add)
    have dlt: "d < 2 ^ (k + 2)"
    proof -
      have "(2::nat) ^ k < 2 ^ (k + 2)" by (intro power_strict_increasing) simp_all
      with d show ?thesis by (rule le_less_trans)
    qed
    have dhalf: "d < 2 ^ (k + 1)"
    proof -
      have "(2::nat) ^ k < 2 ^ (k + 1)" by (intro power_strict_increasing) simp_all
      with d show ?thesis by (rule le_less_trans)
    qed
    have qv: "?n div 2 ^ (k + 2) = 2 ^ 52" unfolding c using dlt by (rule div_mod_mult_add(1))
    have rv: "?n mod 2 ^ (k + 2) = d" unfolding c using dlt by (rule div_mod_mult_add(2))
    have fin: "(2::nat) ^ 52 * 2 ^ (k + 2) < 2 ^ 1024"
      unfolding c [symmetric] using k by (intro power_strict_increasing) simp_all
    have "roundDouble ?n = enat (2 ^ 52 * 2 ^ (k + 2))"
      using big dhalf fin by (simp only: roundDouble_def Let_def e qv rv) simp
    then show ?thesis by (simp only: 3 c) simp
  qed
qed

text \<open>The same bounds for the sums and products of the program.\<close>

lemma numAdd_le:
  assumes "a \<le> enat x" and "b \<le> enat y" and "x + y \<le> 2 ^ k" and "k < 1024"
  shows "numAdd a b \<le> enat (2 ^ k)"
proof -
  from assms(1,2) obtain a' b' where ab: "a = enat a'" "b = enat b'" "a' \<le> x" "b' \<le> y"
    by (cases a; cases b) auto
  with assms(3) have "a' + b' \<le> 2 ^ k" by simp
  from roundDouble_bound [OF this assms(4)] show ?thesis
    by (auto simp: numAdd_def ab)
qed

lemma numMul_le:
  assumes "a \<le> enat x" and "b \<le> enat y" and "x * y \<le> 2 ^ k" and "k < 1024"
  shows "numMul a b \<le> enat (2 ^ k)"
proof -
  from assms(1,2) obtain a' b' where ab: "a = enat a'" "b = enat b'" "a' \<le> x" "b' \<le> y"
    by (cases a; cases b) auto
  then have "a' * b' \<le> x * y" by (simp add: mult_le_mono)
  with assms(3) have "a' * b' \<le> 2 ^ k" by simp
  from roundDouble_bound [OF this assms(4)] show ?thesis
    by (auto simp: numMul_def ab)
qed

lemma numAdd_cap:
  assumes "isDoubleValue a" and "a \<le> enat (2 ^ (k + 54))" and "b \<le> enat (2 ^ k)"
    and "k + 54 < 1024"
  shows "numAdd a b \<le> enat (2 ^ (k + 54))"
proof -
  from assms(2,3) obtain a' b' where ab: "a = enat a'" "b = enat b'"
    "a' \<le> 2 ^ (k + 54)" "b' \<le> 2 ^ k"
    by (cases a; cases b) auto
  from assms(1) ab have "roundDouble a' = enat a'" by (simp add: isDoubleValue_enat)
  from roundDouble_add_cap [OF this ab(3,4) assms(4)] show ?thesis
    by (auto simp: numAdd_def ab)
qed

section \<open>Properties of the Normalizer\<close>

lemma numeralLoop_foldl: "numeralLoop chinese i st = foldl numeralStep st (drop i chinese)"
proof (induction chinese i st rule: numeralLoop.induct)
  case (1 chinese i st)
  show ?case
  proof (cases "i < length chinese")
    case True
    then have "drop i chinese = chinese ! i # drop (Suc i) chinese"
      by (simp add: Cons_nth_drop_Suc)
    with True 1 show ?thesis
      by (subst numeralLoop.simps) simp
  next
    case False
    then show ?thesis by (subst numeralLoop.simps) simp
  qed
qed

lemma numeralStep_classify:
  "accumulate (result (numeralStep st ch), section' (numeralStep st ch), number (numeralStep st ch)) syms
   = accumulate (result st, section' st, number st) (classify ch # syms)"
  by (simp add: numeralStep_def classify_def digitMap_def unitMap_def Let_def)

lemma foldl_numeralStep_accumulate:
  "(let st' = foldl numeralStep st s in numAdd (numAdd (result st') (section' st')) (number st'))
   = accumulate (result st, section' st, number st) (map classify s)"
proof (induction s arbitrary: st)
  case Nil
  show ?case by simp
next
  case (Cons ch s)
  show ?case
    using Cons [of "numeralStep st ch"] numeralStep_classify [of st ch "map classify s"] by simp
qed

lemma foldl_decimal:
  "foldl (\<lambda>acc c. acc * 10 + digitValue c) acc s = acc * 10 ^ length s + decimalValue s"
  by (induction s arbitrary: acc) (simp_all add: digitValue_def algebra_simps)

lemma parseInt10_decimalValue: "parseInt10 s = roundDouble (decimalValue s)"
  by (simp add: parseInt10_def foldl_decimal)

lemma isDigit_eq: "isDigit = (\<lambda>c. 0x30 \<le> c \<and> c \<le> 0x39)"
  by (rule ext) (simp add: isDigit_def)

lemma normalize_refines: "chineseNumeralToNumber token = normalizeSpec token"
  using foldl_numeralStep_accumulate [of "\<lparr>result = 0, section' = 0, number = 0\<rparr>" token]
  by (simp add: chineseNumeralToNumber_def normalizeSpec_def numeralLoop_foldl
      parseInt10_decimalValue isDigit_eq Let_def)

lemmas number_eval = roundDouble_def numAdd_def numMul_def zero_enat_def one_enat_def
  numeral_eq_enat

lemmas normalizer_eval = chineseNumeralToNumber_def isDigit_def numeralLoop.simps numeralStep_def
  digitMap_def unitMap_def parseInt10_def digitValue_def number_eval

text \<open>
  C3: the reference values of the Normalizer: ten-two is 12, one-hundred-zero-five is 105,
  two-thousand-three-hundred (with the variant of two) is 2300, \<open>3\<close> is 3 and the empty string gives \<open>null\<close>; and on every
  token \<open>chineseNumeralToNumber\<close> computes what the single pass of the specification
  computes: a unit of at least 10000 adds (section + pending digit) * unit to the result and
  clears the section, a smaller unit adds (pending digit or 1) * unit to the section, an
  unrecognized character clears the pending digit, and the value is
  result + section + pending digit.
\<close>

theorem normalizer_reference_values_and_algorithm:
  "chineseNumeralToNumber [0x5341, 0x4E8C] = Some 12
   \<and> chineseNumeralToNumber [0x4E00, 0x767E, 0x96F6, 0x4E94] = Some 105
   \<and> chineseNumeralToNumber [0x4E24, 0x5343, 0x4E09, 0x767E] = Some 2300
   \<and> chineseNumeralToNumber [0x33] = Some 3
   \<and> chineseNumeralToNumber [] = None
   \<and> (\<forall>token. chineseNumeralToNumber token = normalizeSpec token)"
proof -
  have "chineseNumeralToNumber [0x5341, 0x4E8C] = Some 12"
    by (simp add: normalizer_eval)
  moreover have "chineseNumeralToNumber [0x4E00, 0x767E, 0x96F6, 0x4E94] = Some 105"
    by (simp add: normalizer_eval)
  moreover have "chineseNumeralToNumber [0x4E24, 0x5343, 0x4E09, 0x767E] = Some 2300"
    by (simp add: normalizer_eval)
  moreover have "chineseNumeralToNumber [0x33] = Some 3"
    by (simp add: normalizer_eval)
  moreover have "chineseNumeralToNumber [] = None"
    by (simp add: normalizer_eval)
  ultimately show ?thesis
    using normalize_refines by blast
qed


section \<open>The end-to-end scenarios\<close>

lemmas segmenter_eval = normalizer_eval trim_def isSpace_def isLineTerminator_def splitLines.simps
  numeralClass_def isNumeralChar_def chapterMatch_def digitChar_def numberToString_def digitsOf.simps
  emptyChapterText_def truthy_def pushChapter_def chapterTitle_def segmentStep_def segmentLines_def
  segmentChapters_def Let_def

lemmas dedupe_eval = isPlainChar_def getFirstNChars_def chapterNumberPattern_def chapterNumber_def
  groupStep_def groupChapters_def dedupeGroup_def compareChapters_def numDifference_def
  sortArray_def removeDuplicateChapters_def isDigit_def parseInt10_def digitValue_def
  number_eval Let_def

text \<open>
  C5: scenario A. The text is the heading "chapter one" (Chinese numeral) with the suffix
  of two characters, a body line of two characters, an empty line, the heading "chapter two"
  and a body line of two characters. \<open>splitIntoChapters\<close> gives exactly two chapters: the
  first with number 1, the title with the Arabic numeral 1 and the suffix, and the body of the
  first body line; the second with number 2, the title with the numeral 2 and the body of the
  last line. \<open>countTotalWords\<close> of them is 4.
\<close>

theorem scenario_A_two_chapters:
  "splitIntoChapters [0x7B2C, 0x4E00, 0x7AE0, 0x20, 0x5F00, 0x59CB, 0x0A, 0x4F60, 0x597D, 0x0A,
       0x0A, 0x7B2C, 0x4E8C, 0x7AE0, 0x0A, 0x4E16, 0x754C]
     = [\<lparr>title = [0x7B2C, 0x31, 0x7AE0, 0x20, 0x5F00, 0x59CB], data = [0x4F60, 0x597D]\<rparr>,
        \<lparr>title = [0x7B2C, 0x32, 0x7AE0], data = [0x4E16, 0x754C]\<rparr>]
   \<and> map chapterNumber (splitIntoChapters [0x7B2C, 0x4E00, 0x7AE0, 0x20, 0x5F00, 0x59CB, 0x0A,
       0x4F60, 0x597D, 0x0A, 0x0A, 0x7B2C, 0x4E8C, 0x7AE0, 0x0A, 0x4E16, 0x754C]) = [Some 1, Some 2]
   \<and> countTotalWords (splitIntoChapters [0x7B2C, 0x4E00, 0x7AE0, 0x20, 0x5F00, 0x59CB, 0x0A,
       0x4F60, 0x597D, 0x0A, 0x0A, 0x7B2C, 0x4E8C, 0x7AE0, 0x0A, 0x4E16, 0x754C]) = 4"
proof -
  have seg: "segmentChapters [0x7B2C, 0x4E00, 0x7AE0, 0x20, 0x5F00, 0x59CB, 0x0A, 0x4F60, 0x597D,
       0x0A, 0x0A, 0x7B2C, 0x4E8C, 0x7AE0, 0x0A, 0x4E16, 0x754C]
     = [\<lparr>title = [0x7B2C, 0x31, 0x7AE0, 0x20, 0x5F00, 0x59CB], data = [0x4F60, 0x597D]\<rparr>,
        \<lparr>title = [0x7B2C, 0x32, 0x7AE0], data = [0x4E16, 0x754C]\<rparr>]"
    by (simp add: segmenter_eval)
  have dd: "removeDuplicateChapters
       [\<lparr>title = [0x7B2C, 0x31, 0x7AE0, 0x20, 0x5F00, 0x59CB], data = [0x4F60, 0x597D]\<rparr>,
        \<lparr>title = [0x7B2C, 0x32, 0x7AE0], data = [0x4E16, 0x754C]\<rparr>]
     = [\<lparr>title = [0x7B2C, 0x31, 0x7AE0, 0x20, 0x5F00, 0x59CB], data = [0x4F60, 0x597D]\<rparr>,
        \<lparr>title = [0x7B2C, 0x32, 0x7AE0], data = [0x4E16, 0x754C]\<rparr>]"
    by (simp add: dedupe_eval)
  have nums: "map chapterNumber
       [\<lparr>title = [0x7B2C, 0x31, 0x7AE0, 0x20, 0x5F00, 0x59CB], data = [0x4F60, 0x597D]\<rparr>,
        \<lparr>title = [0x7B2C, 0x32, 0x7AE0], data = [0x4E16, 0x754C]\<rparr>] = [Some 1, Some 2]"
    by (simp add: dedupe_eval)
  have words: "countTotalWords
       [\<lparr>title = [0x7B2C, 0x31, 0x7AE0, 0x20, 0x5F00, 0x59CB], data = [0x4F60, 0x597D]\<rparr>,
        \<lparr>title = [0x7B2C, 0x32, 0x7AE0], data = [0x4E16, 0x754C]\<rparr>] = 4"
    by (simp add: countTotalWords_def isSpace_def number_eval)
  show ?thesis
    by (simp only: splitIntoChapters_def seg dd nums words)
qed

text \<open>Outside any chapter the loop ignores a line that is no heading.\<close>

lemma foldl_segmentStep_outside:
  "foldl segmentStep \<lparr>chapters = [], currentChapter = None, currentContent = []\<rparr> lines
   = foldl segmentStep \<lparr>chapters = [], currentChapter = None, currentContent = []\<rparr>
       (dropWhile (\<lambda>l. chapterMatch l = None) lines)"
  by (induction lines) (simp_all add: segmentStep_def truthy_def)

lemma segmentLines_dropWhile:
  "segmentLines lines = segmentLines (dropWhile (\<lambda>l. chapterMatch l = None) lines)"
  unfolding segmentLines_def by (subst foldl_segmentStep_outside) simp

text \<open>
  C6: the lines before the first line that matches the heading pattern are discarded: for
  every document the chapters are those of its lines from the first heading on, so no line
  before it reaches a title or a body. Scenario C: the text "intro text", the heading with
  the numeral 1 and one body line gives exactly one chapter, of number 1, with the heading
  as its title and the body line as its body.
\<close>

theorem lines_before_first_heading_discarded:
  "(\<forall>content. splitIntoChapters content
       = removeDuplicateChapters
           (segmentLines (dropWhile (\<lambda>l. chapterMatch l = None) (splitLines content))))
   \<and> splitIntoChapters [0x69, 0x6E, 0x74, 0x72, 0x6F, 0x20, 0x74, 0x65, 0x78, 0x74, 0x0A,
         0x7B2C, 0x31, 0x7AE0, 0x0A, 0x6B63, 0x6587]
       = [\<lparr>title = [0x7B2C, 0x31, 0x7AE0], data = [0x6B63, 0x6587]\<rparr>]
   \<and> chapterNumber \<lparr>title = [0x7B2C, 0x31, 0x7AE0], data = [0x6B63, 0x6587]\<rparr> = Some 1"
proof -
  have seg: "segmentChapters [0x69, 0x6E, 0x74, 0x72, 0x6F, 0x20, 0x74, 0x65, 0x78, 0x74, 0x0A,
         0x7B2C, 0x31, 0x7AE0, 0x0A, 0x6B63, 0x6587]
       = [\<lparr>title = [0x7B2C, 0x31, 0x7AE0], data = [0x6B63, 0x6587]\<rparr>]"
    by (simp add: segmenter_eval)
  have dd: "removeDuplicateChapters [\<lparr>title = [0x7B2C, 0x31, 0x7AE0], data = [0x6B63, 0x6587]\<rparr>]
       = [\<lparr>title = [0x7B2C, 0x31, 0x7AE0], data = [0x6B63, 0x6587]\<rparr>]"
    by (simp add: dedupe_eval)
  have num: "chapterNumber \<lparr>title = [0x7B2C, 0x31, 0x7AE0], data = [0x6B63, 0x6587]\<rparr> = Some 1"
    by (simp add: dedupe_eval)
  have gen: "\<forall>content. splitIntoChapters content
       = removeDuplicateChapters
           (segmentLines (dropWhile (\<lambda>l. chapterMatch l = None) (splitLines content)))"
    using segmentLines_dropWhile by (simp add: splitIntoChapters_def segmentChapters_def)
  show ?thesis
    using gen num by (simp only: splitIntoChapters_def seg dd) simp
qed


section \<open>Properties of the Deduplicator\<close>

subsection \<open>The grouping loop\<close>

lemma groupStep_alt:
  "groupStep m c =
     (case chapterNumber c of
        None \<Rightarrow> m
      | Some n \<Rightarrow> AList.update n ((case map_of m n of None \<Rightarrow> [] | Some l \<Rightarrow> l) @ [c]) m)"
  by (simp add: groupStep_def chapterNumber_def Let_def AList.update_conv'
      split: option.splits)

lemma map_of_groupStep:
  "map_of (groupStep m c) n =
     (if chapterNumber c = Some n
      then Some ((case map_of m n of None \<Rightarrow> [] | Some l \<Rightarrow> l) @ [c])
      else map_of m n)"
  by (simp add: groupStep_alt AList.update_conv' split: option.splits)

lemma map_of_foldl_groupStep:
  "map_of (foldl groupStep m cs) n =
     (case map_of m n of
        None \<Rightarrow> (if groupOf n cs = [] then None else Some (groupOf n cs))
      | Some l \<Rightarrow> Some (l @ groupOf n cs))"
proof (induction cs arbitrary: m)
  case Nil
  show ?case by (simp add: groupOf_def split: option.splits)
next
  case (Cons c cs)
  show ?case
    by (simp add: Cons map_of_groupStep groupOf_def split: option.splits)
qed

lemma map_of_groupChapters:
  "map_of (groupChapters cs) n = (if groupOf n cs = [] then None else Some (groupOf n cs))"
  by (simp add: groupChapters_def map_of_foldl_groupStep)

lemma distinct_groupStep: "distinct (map fst m) \<Longrightarrow> distinct (map fst (groupStep m c))"
  by (simp add: groupStep_alt AList.distinct_update split: option.splits)

lemma distinct_foldl_groupStep:
  "distinct (map fst m) \<Longrightarrow> distinct (map fst (foldl groupStep m cs))"
  by (induction cs arbitrary: m) (simp_all add: distinct_groupStep)

lemma distinct_groupChapters: "distinct (map fst (groupChapters cs))"
  by (simp add: groupChapters_def distinct_foldl_groupStep)

lemma groupChapters_entry:
  assumes "(k, g) \<in> set (groupChapters cs)"
  shows "g = groupOf k cs" and "g \<noteq> []"
proof -
  have "map_of (groupChapters cs) k = Some g"
    using assms distinct_groupChapters by simp
  then show "g = groupOf k cs" and "g \<noteq> []"
    by (simp_all add: map_of_groupChapters split: if_splits)
qed

subsection \<open>The loop over one group\<close>

lemma isDuplicate_iff:
  "isDuplicate f kept \<longleftrightarrow> f \<noteq> [] \<and> (\<exists>k \<in> set kept. getFirstNChars (data k) 5 = f)"
  by (induction kept) (auto simp: Let_def)

lemma keptLoop_append:
  "keptLoop kept (xs @ [c]) =
     (if isDuplicate (getFirstNChars (data c) 5) (keptLoop kept xs) then keptLoop kept xs
      else keptLoop kept xs @ [c])"
  by (induction xs arbitrary: kept) (simp_all add: Let_def)

lemma keptLoop_prefix: "\<exists>ys. keptLoop kept xs = kept @ ys \<and> mset ys \<subseteq># mset xs"
proof (induction xs arbitrary: kept)
  case Nil
  show ?case by simp
next
  case (Cons x xs)
  show ?case
  proof (cases "isDuplicate (getFirstNChars (data x) 5) kept")
    case True
    from Cons [of kept] obtain ys where "keptLoop kept xs = kept @ ys" "mset ys \<subseteq># mset xs"
      by blast
    then show ?thesis using True
      by (auto simp: Let_def intro: subset_mset.order_trans)
  next
    case False
    from Cons [of "kept @ [x]"] obtain ys
      where ys: "keptLoop (kept @ [x]) xs = (kept @ [x]) @ ys" "mset ys \<subseteq># mset xs"
      by blast
    have "keptLoop kept (x # xs) = kept @ (x # ys)"
      using False ys by (simp add: Let_def)
    moreover have "mset (x # ys) \<subseteq># mset (x # xs)"
      using ys by simp
    ultimately show ?thesis by blast
  qed
qed

lemma dedupeGroup_keptLoop: "dedupeGroup (first # rest) = keptLoop [first] rest"
  by (cases rest) (simp_all add: dedupeGroup_def)

lemma dedupeGroup_Nil [simp]: "dedupeGroup [] = []"
  by (simp add: dedupeGroup_def)

lemma dedupeGroup_Cons: "\<exists>ys. dedupeGroup (first # rest) = first # ys \<and> mset ys \<subseteq># mset rest"
  using keptLoop_prefix [of "[first]" rest] by (simp add: dedupeGroup_keptLoop)

lemma mset_dedupeGroup: "mset (dedupeGroup g) \<subseteq># mset g"
proof (cases g)
  case Nil
  then show ?thesis by simp
next
  case (Cons first rest)
  then show ?thesis using dedupeGroup_Cons [of first rest] by auto
qed

lemma set_dedupeGroup: "set (dedupeGroup g) \<subseteq> set g"
  using mset_dedupeGroup [of g] by (metis set_mset_mono set_mset_mset)

lemma dedupeGroup_eq_Nil [simp]: "dedupeGroup g = [] \<longleftrightarrow> g = []"
proof (cases g)
  case Nil
  then show ?thesis by simp
next
  case (Cons first rest)
  then show ?thesis using dedupeGroup_Cons [of first rest] by auto
qed

lemma hd_dedupeGroup: "g \<noteq> [] \<Longrightarrow> hd (dedupeGroup g) = hd g"
proof (cases g)
  case Nil
  assume "g \<noteq> []"
  with Nil show ?thesis by simp
next
  case (Cons first rest)
  then show ?thesis using dedupeGroup_Cons [of first rest] by auto
qed

lemma dedupeGroup_snoc:
  "dedupeGroup (first # before @ [c]) =
     (if getFirstNChars (data c) 5 \<noteq> []
         \<and> (\<exists>k \<in> set (dedupeGroup (first # before)).
               getFirstNChars (data k) 5 = getFirstNChars (data c) 5)
      then dedupeGroup (first # before)
      else dedupeGroup (first # before) @ [c])"
  by (simp add: dedupeGroup_keptLoop keptLoop_append isDuplicate_iff)



subsection \<open>The sort\<close>

lemma numDifference_le: "numDifference a b \<le> 0 \<longleftrightarrow> a \<le> b"
  by (cases a; cases b) (simp_all add: numDifference_def)

lemma compareChapters_numbered:
  "chapterNumber a \<noteq> None \<Longrightarrow> chapterNumber b \<noteq> None \<Longrightarrow>
   compareChapters a b \<le> 0 \<longleftrightarrow> numOf a \<le> numOf b"
  by (auto simp: compareChapters_def numOf_def chapterNumber_def numDifference_le
      split: option.splits)

lemma insertSorted_insort:
  "chapterNumber x \<noteq> None \<Longrightarrow> \<forall>y \<in> set ys. chapterNumber y \<noteq> None \<Longrightarrow>
   insertSorted compareChapters x ys = insort_key numOf x ys"
  by (induction ys) (simp_all add: compareChapters_numbered)

lemma sortArray_sort_key:
  "\<forall>x \<in> set xs. chapterNumber x \<noteq> None \<Longrightarrow> sortArray compareChapters xs = sort_key numOf xs"
proof (induction xs)
  case Nil
  show ?case by (simp add: sortArray_def)
next
  case (Cons x xs)
  then have "sortArray compareChapters xs = sort_key numOf xs" by simp
  moreover have "\<forall>y \<in> set (sort_key numOf xs). chapterNumber y \<noteq> None"
    using Cons.prems by simp
  ultimately show ?case
    using Cons.prems by (simp add: sortArray_def insertSorted_insort)
qed

subsection \<open>The output of removeDuplicateChapters\<close>


lemma groupOf_numbered: "c \<in> set (groupOf n cs) \<Longrightarrow> chapterNumber c = Some n"
  by (simp add: groupOf_def)

lemma uniqueChapters_numbered: "c \<in> set (uniqueChapters cs) \<Longrightarrow> chapterNumber c \<noteq> None"
proof -
  assume "c \<in> set (uniqueChapters cs)"
  then obtain k g where kg: "(k, g) \<in> set (groupChapters cs)" and c: "c \<in> set (dedupeGroup g)"
    by (auto simp: uniqueChapters_def)
  then have "c \<in> set (groupOf k cs)"
    using groupChapters_entry(1) [OF kg] set_dedupeGroup [of g] by auto
  then show ?thesis by (simp add: groupOf_def)
qed

lemma removeDuplicateChapters_sort:
  "removeDuplicateChapters cs = sort_key numOf (uniqueChapters cs)"
  using sortArray_sort_key [of "uniqueChapters cs"] uniqueChapters_numbered
  by (simp add: removeDuplicateChapters_def uniqueChapters_def Let_def)

lemma filter_groups:
  assumes "distinct (map fst m)"
    and "\<And>k g c. (k, g) \<in> set m \<Longrightarrow> c \<in> set (dedupeGroup g) \<Longrightarrow> chapterNumber c = Some k"
  shows "filter (\<lambda>c. chapterNumber c = Some n) (concat (map (\<lambda>(num, chapterList). dedupeGroup chapterList) m))
         = (case map_of m n of None \<Rightarrow> [] | Some g \<Rightarrow> dedupeGroup g)"
  using assms
proof (induction m)
  case Nil
  show ?case by simp
next
  case (Cons p m)
  obtain k g where p: "p = (k, g)" by (cases p)
  have IH: "filter (\<lambda>c. chapterNumber c = Some n) (concat (map (\<lambda>(num, chapterList). dedupeGroup chapterList) m))
         = (case map_of m n of None \<Rightarrow> [] | Some g \<Rightarrow> dedupeGroup g)"
    using Cons by auto
  have here: "\<forall>c \<in> set (dedupeGroup g). chapterNumber c = Some k"
    using Cons.prems(2) [of k g] p by simp
  show ?case
  proof (cases "k = n")
    case True
    then have "map_of m n = None"
      using Cons.prems(1) p by (simp add: map_of_eq_None_iff)
    with True IH here p show ?thesis by simp
  next
    case False
    with here have "filter (\<lambda>c. chapterNumber c = Some n) (dedupeGroup g) = []"
      by (auto simp: filter_empty_conv)
    with False IH p show ?thesis by simp
  qed
qed

lemma groupOf_uniqueChapters: "groupOf n (uniqueChapters cs) = dedupeGroup (groupOf n cs)"
proof -
  have "groupOf n (uniqueChapters cs)
        = (case map_of (groupChapters cs) n of None \<Rightarrow> [] | Some g \<Rightarrow> dedupeGroup g)"
    unfolding groupOf_def uniqueChapters_def
  proof (rule filter_groups [OF distinct_groupChapters])
    fix k g c
    assume kg: "(k, g) \<in> set (groupChapters cs)" and c: "c \<in> set (dedupeGroup g)"
    then have "c \<in> set (groupOf k cs)"
      using groupChapters_entry(1) [OF kg] set_dedupeGroup [of g] by auto
    then show "chapterNumber c = Some k" by (rule groupOf_numbered)
  qed
  then show ?thesis by (simp add: map_of_groupChapters)
qed

lemma groupOf_numOf:
  "\<forall>c \<in> set xs. chapterNumber c \<noteq> None \<Longrightarrow> groupOf n xs = filter (\<lambda>c. numOf c = n) xs"
  unfolding groupOf_def by (rule filter_cong) (auto simp: numOf_def)

lemma output_numbered: "c \<in> set (removeDuplicateChapters cs) \<Longrightarrow> chapterNumber c \<noteq> None"
  by (simp add: removeDuplicateChapters_sort uniqueChapters_numbered)

lemma output_sorted: "sorted (map numOf (removeDuplicateChapters cs))"
  by (simp add: removeDuplicateChapters_sort)

lemma output_group: "groupOf n (removeDuplicateChapters cs) = dedupeGroup (groupOf n cs)"
proof -
  have "groupOf n (removeDuplicateChapters cs) = filter (\<lambda>c. numOf c = n) (sort_key numOf (uniqueChapters cs))"
    using groupOf_numOf [of "removeDuplicateChapters cs" n] output_numbered [of _ cs]
    by (auto simp: removeDuplicateChapters_sort)
  also have "\<dots> = filter (\<lambda>c. numOf c = n) (uniqueChapters cs)"
    by (rule sort_key_stable)
  also have "\<dots> = groupOf n (uniqueChapters cs)"
    using groupOf_numOf [of "uniqueChapters cs" n] uniqueChapters_numbered [of _ cs] by auto
  finally show ?thesis by (simp add: groupOf_uniqueChapters)
qed

text \<open>
  C1: a chapter whose title does not match the number pattern is not kept by
  \<open>removeDuplicateChapters\<close>: the grouping loop skips it, and the output is built from the
  groups alone. A single chapter titled "prologue" (U+5E8F U+7AE0) with the body "abc" gives
  the empty list; and whatever the input, every chapter of the output carries a number.
\<close>

theorem unnumbered_chapter_is_dropped:
  "removeDuplicateChapters [\<lparr>title = [0x5E8F, 0x7AE0], data = [0x61, 0x62, 0x63]\<rparr>] = []
   \<and> chapterNumber \<lparr>title = [0x5E8F, 0x7AE0], data = [0x61, 0x62, 0x63]\<rparr> = None
   \<and> (\<forall>cs. list_all (\<lambda>c. chapterNumber c \<noteq> None) (removeDuplicateChapters cs))"
proof -
  have "removeDuplicateChapters [\<lparr>title = [0x5E8F, 0x7AE0], data = [0x61, 0x62, 0x63]\<rparr>] = []"
    by (simp add: dedupe_eval)
  moreover have "chapterNumber \<lparr>title = [0x5E8F, 0x7AE0], data = [0x61, 0x62, 0x63]\<rparr> = None"
    by (simp add: dedupe_eval)
  moreover have "\<forall>cs. list_all (\<lambda>c. chapterNumber c \<noteq> None) (removeDuplicateChapters cs)"
    using output_numbered by (simp add: list_all_iff)
  ultimately show ?thesis by blast
qed

subsection \<open>Order and provenance of the output\<close>

lemma map_filter_numbered:
  "\<forall>c \<in> set xs. chapterNumber c \<noteq> None \<Longrightarrow> List.map_filter chapterNumber xs = map numOf xs"
  by (induction xs) (auto simp: numOf_def split: option.splits)

text \<open>
  C2 (as amended): in the output of \<open>removeDuplicateChapters\<close> the parsed numbers of the
  chapters never decrease from left to right. (They need not increase strictly: chapters of
  one number that are not duplicates of each other are all kept.)
\<close>

theorem output_numbers_ascending:
  "sorted (List.map_filter chapterNumber (removeDuplicateChapters cs))"
  using map_filter_numbered [of "removeDuplicateChapters cs"] output_numbered [of _ cs]
    output_sorted [of cs]
  by auto

text \<open>
  The order is not strict: two chapters titled with the numeral 1 whose bodies are "a" and
  "b" are both kept, so the output carries the number 1 twice.
\<close>

theorem same_number_kept_twice:
  "\<not> sorted_wrt (<) (List.map_filter chapterNumber (removeDuplicateChapters
       [\<lparr>title = [0x7B2C, 0x31, 0x7AE0], data = [0x61]\<rparr>,
        \<lparr>title = [0x7B2C, 0x31, 0x7AE0], data = [0x62]\<rparr>]))"
proof -
  have "removeDuplicateChapters
       [\<lparr>title = [0x7B2C, 0x31, 0x7AE0], data = [0x61]\<rparr>,
        \<lparr>title = [0x7B2C, 0x31, 0x7AE0], data = [0x62]\<rparr>]
     = [\<lparr>title = [0x7B2C, 0x31, 0x7AE0], data = [0x61]\<rparr>,
        \<lparr>title = [0x7B2C, 0x31, 0x7AE0], data = [0x62]\<rparr>]"
    by (simp add: dedupe_eval)
  then show ?thesis
    by (simp add: dedupe_eval)
qed

lemma mset_output: "mset (removeDuplicateChapters cs) \<subseteq># mset cs"
proof (rule mset_subset_eqI)
  fix a
  show "count (mset (removeDuplicateChapters cs)) a \<le> count (mset cs) a"
  proof (cases "chapterNumber a")
    case None
    then have "a \<notin> set (removeDuplicateChapters cs)"
      using output_numbered [of a cs] by auto
    then have "count (mset (removeDuplicateChapters cs)) a = 0"
      by simp
    then show ?thesis by linarith
  next
    case (Some n)
    have "count (mset (removeDuplicateChapters cs)) a
          = count (mset (groupOf n (removeDuplicateChapters cs))) a"
      using Some by (simp add: groupOf_def)
    also have "\<dots> \<le> count (mset (groupOf n cs)) a"
      using mset_dedupeGroup [of "groupOf n cs"]
      by (simp add: output_group mset_subset_eq_count)
    also have "\<dots> = count (mset cs) a"
      using Some by (simp add: groupOf_def)
    finally show ?thesis .
  qed
qed

lemma find_groupOf:
  "List.find (\<lambda>c. chapterNumber c = Some n) cs = Some f \<Longrightarrow> groupOf n cs \<noteq> [] \<and> hd (groupOf n cs) = f"
  by (induction cs) (auto simp: groupOf_def split: if_splits)

lemma first_of_group_kept:
  assumes "List.find (\<lambda>c. chapterNumber c = Some n) cs = Some f"
  shows "f \<in> set (removeDuplicateChapters cs)"
proof -
  from assms have g: "groupOf n cs \<noteq> []" "hd (groupOf n cs) = f"
    using find_groupOf by blast+
  then have "hd (dedupeGroup (groupOf n cs)) = f" "dedupeGroup (groupOf n cs) \<noteq> []"
    by (simp_all add: hd_dedupeGroup)
  then have "f \<in> set (groupOf n (removeDuplicateChapters cs))"
    by (metis output_group hd_in_set)
  then show ?thesis by (simp add: groupOf_def)
qed

text \<open>
  C10 (as amended): every chapter of the output of \<open>removeDuplicateChapters\<close> is a chapter
  of the input, with its title and body as they were; the output is at most as long as the
  input; and for every number that \<open>parseInt\<close> gives for an input title (the parsed number,
  a double), the first input chapter whose title parses to that number is in the output.
\<close>

theorem output_from_input:
  "set (removeDuplicateChapters cs) \<subseteq> set cs
   \<and> length (removeDuplicateChapters cs) \<le> length cs
   \<and> (\<forall>n f. List.find (\<lambda>c. chapterNumber c = Some n) cs = Some f
          \<longrightarrow> f \<in> set (removeDuplicateChapters cs))"
proof -
  have "set (removeDuplicateChapters cs) \<subseteq> set cs"
    using mset_output [of cs] by (metis set_mset_mono set_mset_mset)
  moreover have "length (removeDuplicateChapters cs) \<le> length cs"
    using mset_output [of cs] by (metis size_mset_mono size_mset)
  ultimately show ?thesis
    using first_of_group_kept by blast
qed

text \<open>
  For the numbers as the titles write them the last part fails. The titles carry the
  numerals 9007199254740992 and 9007199254740993, both bodies are "abcde". \<open>parseInt\<close>
  gives \<open>2^53\<close> for both, they form one group, and the second chapter is dropped as a
  duplicate, although it is the first chapter whose title writes 9007199254740993.
\<close>

theorem rounded_number_loses_first_chapter:
  "List.find (\<lambda>c. writtenNumber c = Some 9007199254740993)
       [\<lparr>title = [0x7B2C, 0x39, 0x30, 0x30, 0x37, 0x31, 0x39, 0x39, 0x32, 0x35, 0x34, 0x37, 0x34,
                   0x30, 0x39, 0x39, 0x32, 0x7AE0], data = [0x61, 0x62, 0x63, 0x64, 0x65]\<rparr>,
        \<lparr>title = [0x7B2C, 0x39, 0x30, 0x30, 0x37, 0x31, 0x39, 0x39, 0x32, 0x35, 0x34, 0x37, 0x34,
                   0x30, 0x39, 0x39, 0x33, 0x7AE0], data = [0x61, 0x62, 0x63, 0x64, 0x65]\<rparr>]
     = Some \<lparr>title = [0x7B2C, 0x39, 0x30, 0x30, 0x37, 0x31, 0x39, 0x39, 0x32, 0x35, 0x34, 0x37,
                   0x34, 0x30, 0x39, 0x39, 0x33, 0x7AE0], data = [0x61, 0x62, 0x63, 0x64, 0x65]\<rparr>
   \<and> removeDuplicateChapters
       [\<lparr>title = [0x7B2C, 0x39, 0x30, 0x30, 0x37, 0x31, 0x39, 0x39, 0x32, 0x35, 0x34, 0x37, 0x34,
                   0x30, 0x39, 0x39, 0x32, 0x7AE0], data = [0x61, 0x62, 0x63, 0x64, 0x65]\<rparr>,
        \<lparr>title = [0x7B2C, 0x39, 0x30, 0x30, 0x37, 0x31, 0x39, 0x39, 0x32, 0x35, 0x34, 0x37, 0x34,
                   0x30, 0x39, 0x39, 0x33, 0x7AE0], data = [0x61, 0x62, 0x63, 0x64, 0x65]\<rparr>]
     = [\<lparr>title = [0x7B2C, 0x39, 0x30, 0x30, 0x37, 0x31, 0x39, 0x39, 0x32, 0x35, 0x34, 0x37, 0x34,
                   0x30, 0x39, 0x39, 0x32, 0x7AE0], data = [0x61, 0x62, 0x63, 0x64, 0x65]\<rparr>]
   \<and> \<lparr>title = [0x7B2C, 0x39, 0x30, 0x30, 0x37, 0x31, 0x39, 0x39, 0x32, 0x35, 0x34, 0x37, 0x34,
                   0x30, 0x39, 0x39, 0x33, 0x7AE0], data = [0x61, 0x62, 0x63, 0x64, 0x65]\<rparr>
       \<notin> set (removeDuplicateChapters
         [\<lparr>title = [0x7B2C, 0x39, 0x30, 0x30, 0x37, 0x31, 0x39, 0x39, 0x32, 0x35, 0x34, 0x37, 0x34,
                   0x30, 0x39, 0x39, 0x32, 0x7AE0], data = [0x61, 0x62, 0x63, 0x64, 0x65]\<rparr>,
          \<lparr>title = [0x7B2C, 0x39, 0x30, 0x30, 0x37, 0x31, 0x39, 0x39, 0x32, 0x35, 0x34, 0x37, 0x34,
                   0x30, 0x39, 0x39, 0x33, 0x7AE0], data = [0x61, 0x62, 0x63, 0x64, 0x65]\<rparr>])"
proof -
  have p1: "parseInt10 [0x39, 0x30, 0x30, 0x37, 0x31, 0x39, 0x39, 0x32, 0x35, 0x34, 0x37, 0x34,
                   0x30, 0x39, 0x39, 0x32] = enat 9007199254740992"
    by (simp add: parseInt10_def digitValue_def roundDouble_def bitLength.simps Let_def)
  have p2: "parseInt10 [0x39, 0x30, 0x30, 0x37, 0x31, 0x39, 0x39, 0x32, 0x35, 0x34, 0x37, 0x34,
                   0x30, 0x39, 0x39, 0x33] = enat 9007199254740992"
    by (simp add: parseInt10_def digitValue_def roundDouble_def bitLength.simps Let_def)
  have f: "List.find (\<lambda>c. writtenNumber c = Some 9007199254740993)
       [\<lparr>title = [0x7B2C, 0x39, 0x30, 0x30, 0x37, 0x31, 0x39, 0x39, 0x32, 0x35, 0x34, 0x37, 0x34,
                   0x30, 0x39, 0x39, 0x32, 0x7AE0], data = [0x61, 0x62, 0x63, 0x64, 0x65]\<rparr>,
        \<lparr>title = [0x7B2C, 0x39, 0x30, 0x30, 0x37, 0x31, 0x39, 0x39, 0x32, 0x35, 0x34, 0x37, 0x34,
                   0x30, 0x39, 0x39, 0x33, 0x7AE0], data = [0x61, 0x62, 0x63, 0x64, 0x65]\<rparr>]
     = Some \<lparr>title = [0x7B2C, 0x39, 0x30, 0x30, 0x37, 0x31, 0x39, 0x39, 0x32, 0x35, 0x34, 0x37,
                   0x34, 0x30, 0x39, 0x39, 0x33, 0x7AE0], data = [0x61, 0x62, 0x63, 0x64, 0x65]\<rparr>"
    by (simp add: writtenNumber_def chapterNumberPattern_def isDigit_def Let_def)
  have r: "removeDuplicateChapters
       [\<lparr>title = [0x7B2C, 0x39, 0x30, 0x30, 0x37, 0x31, 0x39, 0x39, 0x32, 0x35, 0x34, 0x37, 0x34,
                   0x30, 0x39, 0x39, 0x32, 0x7AE0], data = [0x61, 0x62, 0x63, 0x64, 0x65]\<rparr>,
        \<lparr>title = [0x7B2C, 0x39, 0x30, 0x30, 0x37, 0x31, 0x39, 0x39, 0x32, 0x35, 0x34, 0x37, 0x34,
                   0x30, 0x39, 0x39, 0x33, 0x7AE0], data = [0x61, 0x62, 0x63, 0x64, 0x65]\<rparr>]
     = [\<lparr>title = [0x7B2C, 0x39, 0x30, 0x30, 0x37, 0x31, 0x39, 0x39, 0x32, 0x35, 0x34, 0x37, 0x34,
                   0x30, 0x39, 0x39, 0x32, 0x7AE0], data = [0x61, 0x62, 0x63, 0x64, 0x65]\<rparr>]"
    by (simp add: isPlainChar_def getFirstNChars_def chapterNumberPattern_def groupStep_def
        groupChapters_def dedupeGroup_def compareChapters_def numDifference_def sortArray_def
        removeDuplicateChapters_def isDigit_def p1 p2 Let_def)
  show ?thesis
    by (simp only: f r) simp
qed

text \<open>
  Two chapters of number 1 with the bodies "a" and "ab": the first is found as the first of
  its number and is kept.
\<close>

theorem output_from_input_witness:
  "List.find (\<lambda>c. chapterNumber c = Some 1)
       [\<lparr>title = [0x7B2C, 0x31, 0x7AE0], data = [0x61]\<rparr>,
        \<lparr>title = [0x7B2C, 0x31, 0x7AE0], data = [0x61, 0x62]\<rparr>]
     = Some \<lparr>title = [0x7B2C, 0x31, 0x7AE0], data = [0x61]\<rparr>
   \<and> \<lparr>title = [0x7B2C, 0x31, 0x7AE0], data = [0x61]\<rparr>
       \<in> set (removeDuplicateChapters
           [\<lparr>title = [0x7B2C, 0x31, 0x7AE0], data = [0x61]\<rparr>,
            \<lparr>title = [0x7B2C, 0x31, 0x7AE0], data = [0x61, 0x62]\<rparr>])
   \<and> length (removeDuplicateChapters
           [\<lparr>title = [0x7B2C, 0x31, 0x7AE0], data = [0x61]\<rparr>,
            \<lparr>title = [0x7B2C, 0x31, 0x7AE0], data = [0x61, 0x62]\<rparr>]) \<le> 2"
proof -
  have f: "List.find (\<lambda>c. chapterNumber c = Some 1)
       [\<lparr>title = [0x7B2C, 0x31, 0x7AE0], data = [0x61]\<rparr>,
        \<lparr>title = [0x7B2C, 0x31, 0x7AE0], data = [0x61, 0x62]\<rparr>]
     = Some \<lparr>title = [0x7B2C, 0x31, 0x7AE0], data = [0x61]\<rparr>"
    by (simp add: dedupe_eval)
  show ?thesis
    using f output_from_input [of "[\<lparr>title = [0x7B2C, 0x31, 0x7AE0], data = [0x61]\<rparr>,
        \<lparr>title = [0x7B2C, 0x31, 0x7AE0], data = [0x61, 0x62]\<rparr>]"]
    by (metis length_Cons list.size(3) numeral_2_eq_2)
qed

subsection \<open>The rule of one group\<close>

lemma keptLoop_append2: "keptLoop kept (xs @ ys) = keptLoop (keptLoop kept xs) ys"
  by (induction xs arbitrary: kept) (simp_all add: Let_def)

lemma dedupeGroup_extends: "\<exists>zs. dedupeGroup (first # before @ after) = dedupeGroup (first # before) @ zs"
  using keptLoop_prefix [of "keptLoop [first] before" after]
  by (auto simp: dedupeGroup_keptLoop keptLoop_append2)

text \<open>
  C4 (as amended): the chapters of one parsed number in the output are what the loop over
  the group of that number leaves. The loop always keeps the first chapter of the group. A
  later chapter is dropped exactly when its fingerprint is not empty and equals the
  fingerprint of a chapter already kept in the group, and is appended to the kept ones
  otherwise; what is kept stays (the final result extends it). In particular a chapter with
  an empty fingerprint is always kept. The fingerprint is the first 5 characters of the body
  once every character outside U+4E00..U+9FA5, a-z, A-Z and 0-9 is removed.
\<close>

theorem group_keeps_first_and_drops_equal_fingerprints:
  "filter (\<lambda>c. chapterNumber c = Some n) (removeDuplicateChapters cs)
     = dedupeGroup (filter (\<lambda>c. chapterNumber c = Some n) cs)
   \<and> (\<forall>first rest. \<exists>ys. dedupeGroup (first # rest) = first # ys)
   \<and> (\<forall>first before c.
         dedupeGroup (first # before @ [c]) =
           (if getFirstNChars (data c) 5 \<noteq> []
               \<and> (\<exists>k \<in> set (dedupeGroup (first # before)).
                     getFirstNChars (data k) 5 = getFirstNChars (data c) 5)
            then dedupeGroup (first # before)
            else dedupeGroup (first # before) @ [c]))
   \<and> (\<forall>first before after. \<exists>zs.
         dedupeGroup (first # before @ after) = dedupeGroup (first # before) @ zs)
   \<and> (\<forall>first before c. getFirstNChars (data c) 5 = []
         \<longrightarrow> dedupeGroup (first # before @ [c]) = dedupeGroup (first # before) @ [c])
   \<and> (\<forall>body. getFirstNChars body 5
         = take 5 (filter (\<lambda>ch. (0x4E00 \<le> ch \<and> ch \<le> 0x9FA5) \<or> (0x61 \<le> ch \<and> ch \<le> 0x7A)
              \<or> (0x41 \<le> ch \<and> ch \<le> 0x5A) \<or> (0x30 \<le> ch \<and> ch \<le> 0x39)) body))"
proof -
  have group: "filter (\<lambda>c. chapterNumber c = Some n) (removeDuplicateChapters cs)
     = dedupeGroup (filter (\<lambda>c. chapterNumber c = Some n) cs)"
    using output_group [of n cs] by (simp add: groupOf_def)
  have first: "\<forall>first rest. \<exists>ys. dedupeGroup (first # rest) = first # ys"
    using dedupeGroup_Cons by blast
  have fp: "\<forall>body. getFirstNChars body 5
         = take 5 (filter (\<lambda>ch. (0x4E00 \<le> ch \<and> ch \<le> 0x9FA5) \<or> (0x61 \<le> ch \<and> ch \<le> 0x7A)
              \<or> (0x41 \<le> ch \<and> ch \<le> 0x5A) \<or> (0x30 \<le> ch \<and> ch \<le> 0x39)) body)"
  proof -
    have "isPlainChar = (\<lambda>ch. (0x4E00 \<le> ch \<and> ch \<le> 0x9FA5) \<or> (0x61 \<le> ch \<and> ch \<le> 0x7A)
              \<or> (0x41 \<le> ch \<and> ch \<le> 0x5A) \<or> (0x30 \<le> ch \<and> ch \<le> 0x39))"
      by (rule ext) (simp add: isPlainChar_def)
    then show ?thesis by (simp add: getFirstNChars_def)
  qed
  have empty: "\<forall>first before c. getFirstNChars (data c) 5 = []
         \<longrightarrow> dedupeGroup (first # before @ [c]) = dedupeGroup (first # before) @ [c]"
    by (simp add: dedupeGroup_snoc)
  show ?thesis
    using group first fp empty dedupeGroup_snoc dedupeGroup_extends by blast
qed

text \<open>
  The fingerprint of the specification keeps every CJK ideograph, the code's only those of U+4E00..U+9FA5.
  Two chapters of number 1 whose bodies are five times the ideograph U+3400 followed by an
  exclamation mark and by a question mark: the fingerprints the specification describes are equal
  and not empty, so the second chapter would be dropped; for the code both fingerprints are
  empty, and both chapters are kept.
\<close>

theorem ideograph_outside_range_not_deduplicated:
  "fingerprintSpec [0x3400, 0x3400, 0x3400, 0x3400, 0x3400, 0x3F]
     = fingerprintSpec [0x3400, 0x3400, 0x3400, 0x3400, 0x3400, 0x21]
   \<and> fingerprintSpec [0x3400, 0x3400, 0x3400, 0x3400, 0x3400, 0x3F] \<noteq> []
   \<and> removeDuplicateChapters
       [\<lparr>title = [0x7B2C, 0x31, 0x7AE0], data = [0x3400, 0x3400, 0x3400, 0x3400, 0x3400, 0x21]\<rparr>,
        \<lparr>title = [0x7B2C, 0x31, 0x7AE0], data = [0x3400, 0x3400, 0x3400, 0x3400, 0x3400, 0x3F]\<rparr>]
     = [\<lparr>title = [0x7B2C, 0x31, 0x7AE0], data = [0x3400, 0x3400, 0x3400, 0x3400, 0x3400, 0x21]\<rparr>,
        \<lparr>title = [0x7B2C, 0x31, 0x7AE0], data = [0x3400, 0x3400, 0x3400, 0x3400, 0x3400, 0x3F]\<rparr>]"
proof -
  have "fingerprintSpec [0x3400, 0x3400, 0x3400, 0x3400, 0x3400, 0x3F]
     = [0x3400, 0x3400, 0x3400, 0x3400, 0x3400]"
    by (simp add: fingerprintSpec_def isCJKIdeograph_def isAsciiAlphanumeric_def)
  moreover have "fingerprintSpec [0x3400, 0x3400, 0x3400, 0x3400, 0x3400, 0x21]
     = [0x3400, 0x3400, 0x3400, 0x3400, 0x3400]"
    by (simp add: fingerprintSpec_def isCJKIdeograph_def isAsciiAlphanumeric_def)
  moreover have "removeDuplicateChapters
       [\<lparr>title = [0x7B2C, 0x31, 0x7AE0], data = [0x3400, 0x3400, 0x3400, 0x3400, 0x3400, 0x21]\<rparr>,
        \<lparr>title = [0x7B2C, 0x31, 0x7AE0], data = [0x3400, 0x3400, 0x3400, 0x3400, 0x3400, 0x3F]\<rparr>]
     = [\<lparr>title = [0x7B2C, 0x31, 0x7AE0], data = [0x3400, 0x3400, 0x3400, 0x3400, 0x3400, 0x21]\<rparr>,
        \<lparr>title = [0x7B2C, 0x31, 0x7AE0], data = [0x3400, 0x3400, 0x3400, 0x3400, 0x3400, 0x3F]\<rparr>]"
    by (simp add: dedupe_eval)
  ultimately show ?thesis by simp
qed

text \<open>
  Three chapters of number 1 with the bodies "abcde1", "abcde2" and "!". The second has the
  fingerprint "abcde" of the first and is dropped; the third has the empty fingerprint and
  is kept: the output is the first and the third.
\<close>

theorem group_keeps_first_and_drops_equal_fingerprints_witness:
  "getFirstNChars (data \<lparr>title = [0x7B2C, 0x31, 0x7AE0], data = [0x21]\<rparr>) 5 = []
   \<and> getFirstNChars (data \<lparr>title = [0x7B2C, 0x31, 0x7AE0],
          data = [0x61, 0x62, 0x63, 0x64, 0x65, 0x32]\<rparr>) 5 = [0x61, 0x62, 0x63, 0x64, 0x65]
   \<and> filter (\<lambda>c. chapterNumber c = Some 1) (removeDuplicateChapters
       [\<lparr>title = [0x7B2C, 0x31, 0x7AE0], data = [0x61, 0x62, 0x63, 0x64, 0x65, 0x31]\<rparr>,
        \<lparr>title = [0x7B2C, 0x31, 0x7AE0], data = [0x61, 0x62, 0x63, 0x64, 0x65, 0x32]\<rparr>,
        \<lparr>title = [0x7B2C, 0x31, 0x7AE0], data = [0x21]\<rparr>])
     = [\<lparr>title = [0x7B2C, 0x31, 0x7AE0], data = [0x61, 0x62, 0x63, 0x64, 0x65, 0x31]\<rparr>,
        \<lparr>title = [0x7B2C, 0x31, 0x7AE0], data = [0x21]\<rparr>]
   \<and> removeDuplicateChapters
       [\<lparr>title = [0x7B2C, 0x31, 0x7AE0], data = [0x61, 0x62, 0x63, 0x64, 0x65, 0x31]\<rparr>,
        \<lparr>title = [0x7B2C, 0x31, 0x7AE0], data = [0x61, 0x62, 0x63, 0x64, 0x65, 0x32]\<rparr>,
        \<lparr>title = [0x7B2C, 0x31, 0x7AE0], data = [0x21]\<rparr>]
     = [\<lparr>title = [0x7B2C, 0x31, 0x7AE0], data = [0x61, 0x62, 0x63, 0x64, 0x65, 0x31]\<rparr>,
        \<lparr>title = [0x7B2C, 0x31, 0x7AE0], data = [0x21]\<rparr>]"
proof -
  let ?a = "\<lparr>title = [0x7B2C, 0x31, 0x7AE0], data = [0x61, 0x62, 0x63, 0x64, 0x65, 0x31]\<rparr>"
  let ?b = "\<lparr>title = [0x7B2C, 0x31, 0x7AE0], data = [0x61, 0x62, 0x63, 0x64, 0x65, 0x32]\<rparr>"
  let ?c = "\<lparr>title = [0x7B2C, 0x31, 0x7AE0], data = [0x21]\<rparr>"
  have fa: "getFirstNChars (data ?a) 5 = [0x61, 0x62, 0x63, 0x64, 0x65]"
    and fb: "getFirstNChars (data ?b) 5 = [0x61, 0x62, 0x63, 0x64, 0x65]"
    and fc: "getFirstNChars (data ?c) 5 = []"
    by (simp_all add: getFirstNChars_def isPlainChar_def)
  have num: "chapterNumber ?a = Some 1" "chapterNumber ?b = Some 1" "chapterNumber ?c = Some 1"
    by (simp_all add: dedupe_eval)
  have one: "dedupeGroup [?a] = [?a]"
    by (simp add: dedupeGroup_def)
  have rule: "\<forall>first before c.
         dedupeGroup (first # before @ [c]) =
           (if getFirstNChars (data c) 5 \<noteq> []
               \<and> (\<exists>k \<in> set (dedupeGroup (first # before)).
                     getFirstNChars (data k) 5 = getFirstNChars (data c) 5)
            then dedupeGroup (first # before)
            else dedupeGroup (first # before) @ [c])"
    using group_keeps_first_and_drops_equal_fingerprints [of 1 "[]"] by blast
  have two: "dedupeGroup (?a # [] @ [?b]) = dedupeGroup (?a # [])"
    using rule [rule_format, of ?a "[]" ?b] fa fb one by simp
  have three: "dedupeGroup (?a # [?b] @ [?c]) = dedupeGroup (?a # [?b]) @ [?c]"
    using fc group_keeps_first_and_drops_equal_fingerprints [of 1 "[]"] by blast
  have grp: "filter (\<lambda>c. chapterNumber c = Some 1) (removeDuplicateChapters [?a, ?b, ?c])
      = dedupeGroup (filter (\<lambda>c. chapterNumber c = Some 1) [?a, ?b, ?c])"
    using group_keeps_first_and_drops_equal_fingerprints [of 1 "[?a, ?b, ?c]"] by blast
  have "filter (\<lambda>c. chapterNumber c = Some 1) [?a, ?b, ?c] = [?a, ?b, ?c]"
    using num by simp
  with grp one two three
  have g: "filter (\<lambda>c. chapterNumber c = Some 1) (removeDuplicateChapters [?a, ?b, ?c]) = [?a, ?c]"
    by simp
  have all: "removeDuplicateChapters [?a, ?b, ?c] = [?a, ?c]"
    by (simp add: dedupe_eval)
  from fc fb g all show ?thesis by simp
qed

section \<open>Characters, digits and trimming\<close>

lemma unat_digitChar: "d < 10 \<Longrightarrow> unat (digitChar d) = 0x30 + d"
  unfolding digitChar_def by (subst unat_of_nat) simp

lemma isDigit_digitChar: "d < 10 \<Longrightarrow> isDigit (digitChar d)"
  using unat_digitChar [of d] by (simp add: isDigit_def word_le_nat_alt)

lemma digitValue_digitChar: "d < 10 \<Longrightarrow> digitValue (digitChar d) = d"
  by (simp add: digitValue_def unat_digitChar)

lemma digitsOf_digits: "list_all isDigit (digitsOf n) \<and> digitsOf n \<noteq> []"
proof (induction n rule: digitsOf.induct)
  case (1 n)
  show ?case
  proof (cases "n < 10")
    case True
    then show ?thesis by (subst (1 2) digitsOf.simps) (simp add: isDigit_digitChar)
  next
    case False
    with 1 show ?thesis by (subst (1 2) digitsOf.simps) (simp add: isDigit_digitChar)
  qed
qed

lemma decimalValue_snoc: "decimalValue (s @ [c]) = decimalValue s * 10 + digitValue c"
  by (induction s) (simp_all add: digitValue_def algebra_simps)

lemma decimalValue_digitsOf: "decimalValue (digitsOf n) = n"
proof (induction n rule: digitsOf.induct)
  case (1 n)
  show ?case
  proof (cases "n < 10")
    case True
    then show ?thesis
      by (subst digitsOf.simps) (simp add: unat_digitChar)
  next
    case False
    with 1 show ?thesis
      by (subst digitsOf.simps) (simp add: decimalValue_snoc digitValue_digitChar)
  qed
qed

lemma parseInt10_digitsOf: "parseInt10 (digitsOf n) = roundDouble n"
  by (simp add: parseInt10_decimalValue decimalValue_digitsOf)

lemma decimalValue_less: "list_all isDigit s \<Longrightarrow> decimalValue s < 10 ^ length s"
proof (induction s)
  case Nil
  show ?case by simp
next
  case (Cons c cs)
  then have "unat c \<le> 0x39" by (simp add: isDigit_def word_le_nat_alt)
  then have "unat c - 0x30 \<le> 9" by arith
  then have "(unat c - 0x30) * 10 ^ length cs \<le> 9 * 10 ^ length cs" by (rule mult_right_mono) simp
  moreover from Cons have "decimalValue cs < 10 ^ length cs" by simp
  ultimately have "(unat c - 0x30) * 10 ^ length cs + decimalValue cs < 9 * 10 ^ length cs + 10 ^ length cs"
    by (rule add_le_less_mono)
  then show ?case by simp
qed

lemma isDigit_facts:
  "isDigit c \<Longrightarrow> isNumeralChar c" "isDigit c \<Longrightarrow> \<not> isSpace c" "isDigit c \<Longrightarrow> c \<noteq> ch_zhang"
  by (auto simp: isNumeralChar_def isDigit_def isSpace_def word_le_nat_alt)

lemma char_facts:
  "\<not> isNumeralChar ch_zhang" "\<not> isDigit ch_zhang" "\<not> isSpace ch_zhang" "\<not> isSpace ch_di"
  "isSpace ch_space" "isSpace ch_nl" "isLineTerminator ch_nl"
  by (simp_all add: isNumeralChar_def isDigit_def isSpace_def numeralClass_def isLineTerminator_def)

lemma isLineTerminator_isSpace: "isLineTerminator c \<Longrightarrow> isSpace c"
  by (auto simp: isLineTerminator_def isSpace_def)

lemma trim_Nil [simp]: "trim [] = []"
  by (simp add: trim_def)

lemma trim_id: "s \<noteq> [] \<Longrightarrow> \<not> isSpace (hd s) \<Longrightarrow> \<not> isSpace (last s) \<Longrightarrow> trim s = s"
proof -
  assume s: "s \<noteq> []" and h: "\<not> isSpace (hd s)" and l: "\<not> isSpace (last s)"
  from s h have "dropWhile isSpace s = s" by (cases s) simp_all
  moreover have "dropWhile isSpace (rev s) = rev s"
  proof -
    from s obtain ys y where ys: "s = ys @ [y]" by (metis rev_exhaust)
    with l show ?thesis by simp
  qed
  ultimately show ?thesis by (simp add: trim_def)
qed

lemma trim_hd_last:
  assumes "trim s \<noteq> []"
  shows "\<not> isSpace (hd (trim s))" and "\<not> isSpace (last (trim s))"
proof -
  let ?t = "dropWhile isSpace s"
  let ?u = "dropWhile isSpace (rev ?t)"
  from assms have u: "?u \<noteq> []" by (simp add: trim_def)
  have t: "?t \<noteq> []"
  proof
    assume e: "?t = []"
    have "?u = []" unfolding e by simp
    with u show False by simp
  qed
  have "\<not> isSpace (hd ?u)" using u by (rule hd_dropWhile)
  then show "\<not> isSpace (last (trim s))"
    using u by (simp add: trim_def last_rev)
  obtain pre where pre: "rev ?t = pre @ ?u"
    by (metis takeWhile_dropWhile_id)
  then have "?t = rev ?u @ rev pre" by (metis rev_append rev_rev_ident)
  with u have "hd (rev ?u) = hd ?t" by (metis hd_append2 rev_is_Nil_conv)
  moreover have "\<not> isSpace (hd ?t)" using t by (rule hd_dropWhile)
  ultimately show "\<not> isSpace (hd (trim s))" by (simp add: trim_def)
qed

lemma trim_idem [simp]: "trim (trim s) = trim s"
proof (cases "trim s = []")
  case True
  then show ?thesis by simp
next
  case False
  then show ?thesis using trim_hd_last [of s] by (simp add: trim_id)
qed

lemma set_trim: "set (trim s) \<subseteq> set s"
proof -
  have "set (trim s) \<subseteq> set (rev (dropWhile isSpace s))"
    unfolding trim_def using set_dropWhileD by fastforce
  also have "\<dots> \<subseteq> set s" using set_dropWhileD by fastforce
  finally show ?thesis .
qed

lemma trim_emptyChapterText: "trim emptyChapterText = emptyChapterText" "emptyChapterText \<noteq> []"
  by (simp_all add: trim_def emptyChapterText_def isSpace_def)


section \<open>Results of the Normalizer, the LineFilter and the StatsCollector\<close>

text \<open>\<open>stringIncludes\<close> is the substring test.\<close>

lemma stringIncludes_iff: "stringIncludes line keyword \<longleftrightarrow> (\<exists>pre post. line = pre @ keyword @ post)"
proof (induction line)
  case Nil
  show ?case by auto
next
  case (Cons c cs)
  show ?case
  proof
    assume "stringIncludes (c # cs) keyword"
    then consider "take (length keyword) (c # cs) = keyword" | "stringIncludes cs keyword" by auto
    then show "\<exists>pre post. c # cs = pre @ keyword @ post"
    proof cases
      case 1
      then have "c # cs = [] @ keyword @ drop (length keyword) (c # cs)"
        by (metis append_Nil append_take_drop_id)
      then show ?thesis by blast
    next
      case 2
      with Cons obtain pre post where "cs = pre @ keyword @ post" by blast
      then have "c # cs = (c # pre) @ keyword @ post" by simp
      then show ?thesis by blast
    qed
  next
    assume "\<exists>pre post. c # cs = pre @ keyword @ post"
    then obtain pre post where pp: "c # cs = pre @ keyword @ post" by blast
    show "stringIncludes (c # cs) keyword"
    proof (cases pre)
      case Nil
      with pp have "take (length keyword) (c # cs) = keyword" by simp
      then show ?thesis by simp
    next
      case (Cons p pre')
      with pp have "cs = pre' @ keyword @ post" by simp
      with Cons.IH have "stringIncludes cs keyword" by blast
      then show ?thesis by simp
    qed
  qed
qed

lemma filterAdLines_kept:
  "filterAdLines kws lines
     = (filter (\<lambda>line. \<forall>keyword \<in> set kws. \<nexists>pre post. line = pre @ keyword @ post) lines,
        length (filter (\<lambda>line. \<exists>keyword \<in> set kws. \<exists>pre post. line = pre @ keyword @ post) lines))"
proof -
  have k: "(\<lambda>line. \<not> list_ex (\<lambda>keyword. stringIncludes line keyword) kws)
      = (\<lambda>line. \<forall>keyword \<in> set kws. \<nexists>pre post. line = pre @ keyword @ post)"
    by (rule ext) (simp add: list_ex_iff stringIncludes_iff)
  have "length lines = length (filter (\<lambda>line. \<forall>keyword \<in> set kws. \<nexists>pre post. line = pre @ keyword @ post) lines)
      + length (filter (\<lambda>line. \<not> (\<forall>keyword \<in> set kws. \<nexists>pre post. line = pre @ keyword @ post)) lines)"
    by (rule sum_length_filter_compl [symmetric])
  then show ?thesis
    by (simp add: filterAdLines_def Let_def k)
qed

text \<open>The word count is the exact sum as long as the sum is below \<open>2^53\<close>.\<close>

lemma foldl_numAdd_exact:
  "a + sum_list (map f cs) < 2 ^ 53 \<Longrightarrow>
   foldl (\<lambda>total c. numAdd total (enat (f c))) (enat a) cs = enat (a + sum_list (map f cs))"
proof (induction cs arbitrary: a)
  case Nil
  show ?case by simp
next
  case (Cons c cs)
  from Cons.prems have "a + f c < 2 ^ 53" by simp
  then have "numAdd (enat a) (enat (f c)) = enat (a + f c)"
    by (simp add: numAdd_def roundDouble_small)
  moreover from Cons.prems have "(a + f c) + sum_list (map f cs) < 2 ^ 53" by simp
  ultimately show ?case using Cons.IH [of "a + f c"] by (simp add: add.assoc)
qed

lemma countTotalWords_exact:
  assumes "sum_list (map (\<lambda>c. length (filter (\<lambda>ch. \<not> isSpace ch) (data c))) cs) < 2 ^ 53"
  shows "countTotalWords cs
     = enat (sum_list (map (\<lambda>c. length (filter (\<lambda>ch. \<not> isSpace ch) (data c))) cs))"
  using foldl_numAdd_exact [of 0 "\<lambda>c. length (filter (\<lambda>ch. \<not> isSpace ch) (data c))" cs] assms
  by (simp add: countTotalWords_def zero_enat_def)

text \<open>
  The loop of the Normalizer keeps its numbers finite: a unit below 10000 adds at most 9000
  to the section, which such sums cannot take past \<open>2^68\<close>, and a unit from 10000 on adds
  at most \<open>2^96\<close> to the result, which such sums cannot take past \<open>2^150\<close>.
\<close>

lemma digitMap_le: "map_of digitMap ch = Some d \<Longrightarrow> d \<le> 9"
  by (auto simp: digitMap_def split: if_splits)

lemma unitMap_cases:
  "map_of unitMap ch = Some u \<Longrightarrow> u = 10 \<or> u = 100 \<or> u = 1000 \<or> u = 10000 \<or> u = 100000000"
  by (auto simp: unitMap_def split: if_splits)

lemma isDoubleValue_0: "isDoubleValue 0"
  by (simp add: isDoubleValue_def zero_enat_def roundDouble_small)

lemma numeralInv_step:
  assumes "numeralInv st"
  shows "numeralInv (numeralStep st ch)"
proof (cases "map_of digitMap ch")
  case (Some d)
  with assms digitMap_le [OF Some] show ?thesis
    by (simp add: numeralStep_def numeralInv_def)
next
  case None
  show ?thesis
  proof (cases "map_of unitMap ch")
    case n: None
    with None assms show ?thesis
      by (simp add: numeralStep_def numeralInv_def zero_enat_def)
  next
    case (Some u)
    from assms have num: "number st \<le> enat 9"
      and sec: "isDoubleValue (section' st)" "section' st \<le> enat (2 ^ 68)"
      and res: "isDoubleValue (result st)" "result st \<le> enat (2 ^ 150)"
      by (simp_all add: numeralInv_def)
    show ?thesis
    proof (cases "u \<ge> 10000")
      case True
      with unitMap_cases [OF Some] have u: "enat u \<le> enat (2 ^ 27)" by auto
      have "numAdd (section' st) (number st) \<le> enat (2 ^ 69)"
        using sec(2) num by (rule numAdd_le) simp_all
      then have "numMul (numAdd (section' st) (number st)) (enat u) \<le> enat (2 ^ 96)"
        using u by (rule numMul_le) simp_all
      with res have "numAdd (result st) (numMul (numAdd (section' st) (number st)) (enat u))
          \<le> enat (2 ^ 150)"
        using numAdd_cap [of "result st" 96] by simp
      with None Some True sec show ?thesis
        by (simp add: numeralStep_def numeralInv_def Let_def isDoubleValue_numAdd isDoubleValue_0
            zero_enat_def [symmetric])
    next
      case False
      with unitMap_cases [OF Some] have u: "enat u \<le> enat 1000" by auto
      have "(if number st = 0 then 1 else number st) \<le> enat 9"
        using num by (simp add: one_enat_def)
      then have "numMul (if number st = 0 then 1 else number st) (enat u) \<le> enat (2 ^ 14)"
        using u by (rule numMul_le) simp_all
      with sec have "numAdd (section' st) (numMul (if number st = 0 then 1 else number st) (enat u))
          \<le> enat (2 ^ 68)"
        using numAdd_cap [of "section' st" 14] by simp
      with None Some False res show ?thesis
        by (simp add: numeralStep_def numeralInv_def isDoubleValue_numAdd zero_enat_def)
    qed
  qed
qed

lemma numeralInv_loop: "numeralInv st \<Longrightarrow> numeralInv (numeralLoop chinese i st)"
proof (induction chinese i st rule: numeralLoop.induct)
  case (1 chinese i st)
  show ?case
  proof (cases "i < length chinese")
    case True
    with 1 show ?thesis
      by (subst numeralLoop.simps) (simp add: numeralInv_step)
  next
    case False
    with 1 show ?thesis by (subst numeralLoop.simps) simp
  qed
qed

lemma numeralInv_init: "numeralInv \<lparr>result = 0, section' = 0, number = 0\<rparr>"
  by (simp add: numeralInv_def isDoubleValue_0)

lemma chineseNumeralToNumber_numeral:
  assumes "chinese \<noteq> []" and "\<not> list_all isDigit chinese"
  shows "\<exists>n. chineseNumeralToNumber chinese = Some (enat n) \<and> n \<le> 2 ^ 152"
proof -
  let ?st = "numeralLoop chinese 0 \<lparr>result = 0, section' = 0, number = 0\<rparr>"
  have "numeralInv ?st" using numeralInv_init by (rule numeralInv_loop)
  then have num: "number ?st \<le> enat 9" and sec: "section' ?st \<le> enat (2 ^ 68)"
    and res: "result ?st \<le> enat (2 ^ 150)"
    by (simp_all add: numeralInv_def)
  have "numAdd (result ?st) (section' ?st) \<le> enat (2 ^ 151)"
    using res sec by (rule numAdd_le) simp_all
  then have "numAdd (numAdd (result ?st) (section' ?st)) (number ?st) \<le> enat (2 ^ 152)"
    using num by (rule numAdd_le) simp_all
  then obtain n where "numAdd (numAdd (result ?st) (section' ?st)) (number ?st) = enat n"
    and "n \<le> 2 ^ 152"
    by (cases "numAdd (numAdd (result ?st) (section' ?st)) (number ?st)") auto
  with assms show ?thesis
    by (simp add: chineseNumeralToNumber_def Let_def)
qed

text \<open>
  A string of digits is read exactly below \<open>2^53\<close>; up to 308 digits give a finite number,
  as the largest double, \<open>(2^53 - 1) * 2^971\<close>, is above \<open>10^308\<close>; and 310 digits 9
  give \<open>+Infinity\<close>.
\<close>

lemma largest_double:
  "(10::nat) ^ 308 \<le> 9007199254740991 * 2 ^ 971"
  "(9007199254740991::nat) * 2 ^ 971 < 2 ^ 1024"
proof -
  show "(10::nat) ^ 308 \<le> 9007199254740991 * 2 ^ 971" by simp
  have "(9007199254740991::nat) * 2 ^ 971 < 2 ^ 53 * 2 ^ 971" by simp
  also have "\<dots> = (2::nat) ^ (53 + 971)" by (simp only: power_add)
  finally show "(9007199254740991::nat) * 2 ^ 971 < 2 ^ 1024" by simp
qed

lemma chineseNumeralToNumber_digits:
  assumes "chinese \<noteq> []" and "list_all isDigit chinese" and "length chinese \<le> 308"
  shows "\<exists>n. chineseNumeralToNumber chinese = Some (enat n)"
proof -
  have "decimalValue chinese < 10 ^ length chinese" using assms(2) by (rule decimalValue_less)
  also have "\<dots> \<le> (10::nat) ^ 308" using assms(3) by (intro power_increasing) simp_all
  also note largest_double(1)
  finally have "decimalValue chinese \<le> 9007199254740991 * 2 ^ 971" by simp
  then have "\<exists>m. roundDouble (decimalValue chinese) = enat m \<and> m \<le> 9007199254740991 * 2 ^ 971"
    using largest_double(2) by (intro roundDouble_le_double) simp_all
  with assms show ?thesis
    by (auto simp: chineseNumeralToNumber_def parseInt10_decimalValue)
qed

lemma decimalValue_nines: "decimalValue (replicate k 0x39) + 1 = 10 ^ k"
  by (induction k) simp_all

lemma nines_infinite: "chineseNumeralToNumber (replicate 310 0x39) = Some \<infinity>"
proof -
  have "(2::nat) ^ 1024 + 1 \<le> 10 ^ 310" by simp
  with decimalValue_nines [of 310] have "2 ^ 1024 \<le> decimalValue (replicate 310 0x39)"
    by linarith
  then have "roundDouble (decimalValue (replicate 310 0x39)) = \<infinity>"
    by (rule roundDouble_infinite)
  moreover have "list_all isDigit (replicate 310 0x39)"
    by (simp add: list_all_iff isDigit_def)
  ultimately show ?thesis
    by (simp add: chineseNumeralToNumber_def parseInt10_decimalValue)
qed

text \<open>
  C9 (as amended): the Normalizer, the line filter and the word count return a result on
  every input: none of them has a failing branch, and all their loops terminate (the
  functions above are total, \<open>numeralLoop\<close> and \<open>splitLines\<close> by their termination
  proofs). \<open>chineseNumeralToNumber\<close> gives a number, not \<open>null\<close>, for every non-empty
  string, whatever its characters, and this number is a double. It is a non-negative integer
  when the string is not made of decimal digits only (and then at most \<open>2^152\<close>), and when
  the string has at most 308 characters; a string of digits with a value below \<open>2^53\<close>
  gives exactly this value. The filter gives the lines in which no keyword occurs, in their
  order, together with the number of the other lines. \<open>countTotalWords\<close> gives the sum of
  the numbers of non-white-space characters of the bodies when this sum is below \<open>2^53\<close>.
\<close>

theorem normalizer_filter_stats_total:
  "(\<forall>chinese. chinese \<noteq> [] \<longrightarrow>
       (\<exists>x. chineseNumeralToNumber chinese = Some x \<and> isDoubleValue x))
   \<and> (\<forall>chinese. chinese \<noteq> [] \<and> \<not> list_all isDigit chinese \<longrightarrow>
       (\<exists>n. chineseNumeralToNumber chinese = Some (enat n) \<and> n \<le> 2 ^ 152))
   \<and> (\<forall>chinese. chinese \<noteq> [] \<and> length chinese \<le> 308 \<longrightarrow>
       (\<exists>n. chineseNumeralToNumber chinese = Some (enat n)))
   \<and> (\<forall>chinese. chinese \<noteq> [] \<and> list_all isDigit chinese \<and> decimalValue chinese < 2 ^ 53 \<longrightarrow>
       chineseNumeralToNumber chinese = Some (enat (decimalValue chinese)))
   \<and> (\<forall>kws lines. filterAdLines kws lines
         = (filter (\<lambda>line. \<forall>keyword \<in> set kws. \<nexists>pre post. line = pre @ keyword @ post) lines,
            length (filter (\<lambda>line. \<exists>keyword \<in> set kws. \<exists>pre post. line = pre @ keyword @ post) lines)))
   \<and> (\<forall>kws lines. length (fst (filterAdLines kws lines)) + snd (filterAdLines kws lines)
         = length lines)
   \<and> (\<forall>cs. sum_list (map (\<lambda>c. length (filter (\<lambda>ch. \<not> isSpace ch) (data c))) cs) < 2 ^ 53 \<longrightarrow>
         countTotalWords cs
           = enat (sum_list (map (\<lambda>c. length (filter (\<lambda>ch. \<not> isSpace ch) (data c))) cs)))"
proof -
  have a: "\<forall>chinese. chinese \<noteq> [] \<longrightarrow>
       (\<exists>x. chineseNumeralToNumber chinese = Some x \<and> isDoubleValue x)"
    by (simp add: chineseNumeralToNumber_def Let_def parseInt10_def isDoubleValue_roundDouble
        isDoubleValue_numAdd)
  have b: "\<forall>chinese. chinese \<noteq> [] \<and> \<not> list_all isDigit chinese \<longrightarrow>
       (\<exists>n. chineseNumeralToNumber chinese = Some (enat n) \<and> n \<le> 2 ^ 152)"
    using chineseNumeralToNumber_numeral by blast
  have c: "\<forall>chinese. chinese \<noteq> [] \<and> length chinese \<le> 308 \<longrightarrow>
       (\<exists>n. chineseNumeralToNumber chinese = Some (enat n))"
    using chineseNumeralToNumber_numeral chineseNumeralToNumber_digits by blast
  have d: "\<forall>chinese. chinese \<noteq> [] \<and> list_all isDigit chinese \<and> decimalValue chinese < 2 ^ 53 \<longrightarrow>
       chineseNumeralToNumber chinese = Some (enat (decimalValue chinese))"
    by (simp add: chineseNumeralToNumber_def parseInt10_decimalValue roundDouble_small)
  have e: "\<forall>kws lines. filterAdLines kws lines
         = (filter (\<lambda>line. \<forall>keyword \<in> set kws. \<nexists>pre post. line = pre @ keyword @ post) lines,
            length (filter (\<lambda>line. \<exists>keyword \<in> set kws. \<exists>pre post. line = pre @ keyword @ post) lines))"
    using filterAdLines_kept by blast
  have f: "\<forall>kws lines. length (fst (filterAdLines kws lines)) + snd (filterAdLines kws lines)
         = length lines"
    by (simp add: filterAdLines_def Let_def)
  have g: "\<forall>cs. sum_list (map (\<lambda>c. length (filter (\<lambda>ch. \<not> isSpace ch) (data c))) cs) < 2 ^ 53 \<longrightarrow>
         countTotalWords cs
           = enat (sum_list (map (\<lambda>c. length (filter (\<lambda>ch. \<not> isSpace ch) (data c))) cs))"
    using countTotalWords_exact by blast
  from a b c d e f g show ?thesis by (intro conjI)
qed

text \<open>
  C9 as the specification words it fails: the string of 310 digits 9 is not empty, and for it
  \<open>chineseNumeralToNumber\<close> returns \<open>+Infinity\<close>, which is no integer.
\<close>

theorem many_digits_give_infinity:
  "replicate 310 (0x39 :: jschar) \<noteq> []
   \<and> list_all isDigit (replicate 310 0x39)
   \<and> chineseNumeralToNumber (replicate 310 0x39) = Some \<infinity>"
  by (simp add: nines_infinite) (simp add: list_all_iff isDigit_def)

text \<open>
  A malformed numeral, the letter x followed by the unit ten, gives 10; the digits 42 give
  42; of the lines "ba" and "c" the keyword "a" leaves the second and drops one; the body
  "a b" counts two words.
\<close>

theorem normalizer_filter_stats_total_witness:
  "[0x78, 0x5341] \<noteq> ([] :: jsstring) \<and> \<not> list_all isDigit [0x78, 0x5341]
   \<and> chineseNumeralToNumber [0x78, 0x5341] = Some (enat 10) \<and> isDoubleValue (enat 10)
   \<and> list_all isDigit [0x34, 0x32] \<and> decimalValue [0x34, 0x32] < 2 ^ 53
   \<and> chineseNumeralToNumber [0x34, 0x32] = Some (enat 42)
   \<and> filterAdLines [[0x61]] [[0x62, 0x61], [0x63]] = ([[0x63]], 1)
   \<and> sum_list (map (\<lambda>c. length (filter (\<lambda>ch. \<not> isSpace ch) (data c)))
        [\<lparr>title = [], data = [0x61, 0x20, 0x62]\<rparr>]) < 2 ^ 53
   \<and> countTotalWords [\<lparr>title = [], data = [0x61, 0x20, 0x62]\<rparr>] = enat 2"
proof -
  have ne: "[0x78, 0x5341] \<noteq> ([] :: jsstring)" "[0x34, 0x32] \<noteq> ([] :: jsstring)" by simp_all
  have nd: "\<not> list_all isDigit [0x78, 0x5341]" by (simp add: isDigit_def)
  have ten: "chineseNumeralToNumber [0x78, 0x5341] = Some (enat 10)"
    by (simp add: normalizer_eval)
  have dg: "list_all isDigit [0x34, 0x32]" by (simp add: isDigit_def)
  have dv: "decimalValue [0x34, 0x32] = 42" by simp
  have fl: "filterAdLines [[0x61]] [[0x62, 0x61], [0x63]] = ([[0x63]], 1)"
    by (simp add: filterAdLines_def)
  have sm: "sum_list (map (\<lambda>c. length (filter (\<lambda>ch. \<not> isSpace ch) (data c)))
        [\<lparr>title = [], data = [0x61, 0x20, 0x62]\<rparr>]) = 2"
    by (simp add: isSpace_def)
  from normalizer_filter_stats_total ne(1)
  have "\<exists>x. chineseNumeralToNumber [0x78, 0x5341] = Some x \<and> isDoubleValue x" by blast
  with ten have dbl: "isDoubleValue (enat 10)" by simp
  from normalizer_filter_stats_total
  have "\<forall>chinese. chinese \<noteq> [] \<and> list_all isDigit chinese \<and> decimalValue chinese < 2 ^ 53 \<longrightarrow>
       chineseNumeralToNumber chinese = Some (enat (decimalValue chinese))" by blast
  from this [rule_format, of "[0x34, 0x32]"] ne(2) dg dv
  have ft: "chineseNumeralToNumber [0x34, 0x32] = Some (enat 42)" by simp
  from normalizer_filter_stats_total
  have "\<forall>cs. sum_list (map (\<lambda>c. length (filter (\<lambda>ch. \<not> isSpace ch) (data c))) cs) < 2 ^ 53 \<longrightarrow>
         countTotalWords cs
           = enat (sum_list (map (\<lambda>c. length (filter (\<lambda>ch. \<not> isSpace ch) (data c))) cs))"
    by blast
  from this [rule_format, of "[\<lparr>title = [], data = [0x61, 0x20, 0x62]\<rparr>]"] sm
  have cw: "countTotalWords [\<lparr>title = [], data = [0x61, 0x20, 0x62]\<rparr>] = enat 2" by simp
  from ne nd ten dbl dg dv ft fl sm cw show ?thesis by simp
qed

section \<open>Headings and titles\<close>

lemma chapterMatch_SomeD:
  assumes "chapterMatch line = Some (num, g2)"
  shows "num \<noteq> []" and "\<exists>rest. line = ch_di # rest"
    and "g2 = None \<or> (\<exists>g. g2 = Some g \<and> list_all (\<lambda>c. \<not> isLineTerminator c) g
           \<and> (g = [] \<or> \<not> isSpace (hd g)))"
proof -
  from assms obtain rest where line: "line = ch_di # rest"
    by (cases line) (auto simp: chapterMatch_def split: if_splits)
  then show "\<exists>rest. line = ch_di # rest" by blast
  from assms line show "num \<noteq> []"
    by (auto simp: chapterMatch_def Let_def split: if_splits list.splits)
  have gen: "list_all (\<lambda>c. \<not> isLineTerminator c) (takeWhile (\<lambda>c. \<not> isLineTerminator c) (dropWhile isSpace after))
      \<and> (takeWhile (\<lambda>c. \<not> isLineTerminator c) (dropWhile isSpace after) = []
           \<or> \<not> isSpace (hd (takeWhile (\<lambda>c. \<not> isLineTerminator c) (dropWhile isSpace after))))"
    for after
  proof -
    let ?d = "dropWhile isSpace after"
    let ?g = "takeWhile (\<lambda>c. \<not> isLineTerminator c) ?d"
    have all: "list_all (\<lambda>c. \<not> isLineTerminator c) ?g"
      by (auto simp: list_all_iff dest: set_takeWhileD)
    have "?g = [] \<or> \<not> isSpace (hd ?g)"
    proof (cases "?g = []")
      case True
      then show ?thesis by simp
    next
      case False
      have d: "?d \<noteq> []"
      proof
        assume e: "?d = []"
        have "?g = []" unfolding e by simp
        with False show False by simp
      qed
      then have "\<not> isSpace (hd ?d)" by (rule hd_dropWhile)
      moreover have "hd ?g = hd ?d" using False by (cases ?d) (auto split: if_splits)
      ultimately show ?thesis by simp
    qed
    with all show ?thesis by simp
  qed
  from assms line show "g2 = None \<or> (\<exists>g. g2 = Some g \<and> list_all (\<lambda>c. \<not> isLineTerminator c) g
           \<and> (g = [] \<or> \<not> isSpace (hd g)))"
    using gen by (auto simp: chapterMatch_def Let_def split: if_splits list.splits)
qed

lemma canonicalTitle_trimmed:
  "cleanSuffix sfx \<Longrightarrow> trim (canonicalTitle n sfx) = canonicalTitle n sfx"
proof (rule trim_id)
  assume c: "cleanSuffix sfx"
  show "canonicalTitle n sfx \<noteq> []" by (simp add: canonicalTitle_def)
  show "\<not> isSpace (hd (canonicalTitle n sfx))" by (simp add: canonicalTitle_def char_facts)
  show "\<not> isSpace (last (canonicalTitle n sfx))"
    using c by (auto simp: canonicalTitle_def cleanSuffix_def char_facts)
qed

lemma cleanSuffix_trim:
  "list_all (\<lambda>c. \<not> isLineTerminator c) g \<Longrightarrow> cleanSuffix (trim g)"
  using set_trim [of g] trim_hd_last [of g]
  by (auto simp: cleanSuffix_def list_all_iff)

lemma chineseNumeralToNumber_isDoubleValue:
  "chineseNumeralToNumber chinese = Some x \<Longrightarrow> isDoubleValue x"
  by (auto simp: chineseNumeralToNumber_def Let_def parseInt10_def isDoubleValue_roundDouble
      isDoubleValue_numAdd split: if_splits)

lemma chapterTitle_canonical:
  assumes "chapterMatch line = Some (num, g2)"
  shows "\<exists>x sfx. chineseNumeralToNumber num = Some x
           \<and> chapterTitle line num g2 = canonicalTitle x sfx \<and> cleanSuffix sfx \<and> isDoubleValue x"
proof -
  from chapterMatch_SomeD(1) [OF assms] have "\<exists>x. chineseNumeralToNumber num = Some x"
    by (simp add: chineseNumeralToNumber_def Let_def)
  then obtain x where x: "chineseNumeralToNumber num = Some x" by blast
  define sfx where "sfx = (case g2 of None \<Rightarrow> [] | Some g \<Rightarrow> if g = [] then [] else trim g)"
  have sfx: "sfx = (case g2 of None \<Rightarrow> [] | Some g \<Rightarrow> trim g)"
    by (simp add: sfx_def split: option.splits)
  have clean: "cleanSuffix sfx"
  proof (cases g2)
    case None
    then show ?thesis by (simp add: sfx cleanSuffix_def)
  next
    case (Some g)
    with chapterMatch_SomeD(3) [OF assms] have "list_all (\<lambda>c. \<not> isLineTerminator c) g"
      by simp
    then show ?thesis using Some by (simp add: sfx cleanSuffix_trim)
  qed
  have "chapterTitle line num g2 = trim (canonicalTitle x sfx)"
    using x by (simp add: chapterTitle_def canonicalTitle_def sfx_def Let_def)
  with clean x chineseNumeralToNumber_isDoubleValue [OF x] show ?thesis
    by (auto simp: canonicalTitle_trimmed)
qed

lemma takeWhile_digits:
  "takeWhile isNumeralChar (digitsOf n @ ch_zhang # rest) = digitsOf n"
  "dropWhile isNumeralChar (digitsOf n @ ch_zhang # rest) = ch_zhang # rest"
  "takeWhile isDigit (digitsOf n @ ch_zhang # rest) = digitsOf n"
  "dropWhile isDigit (digitsOf n @ ch_zhang # rest) = ch_zhang # rest"
  using digitsOf_digits [of n]
  by (simp_all add: takeWhile_tail dropWhile_append3 char_facts list_all_iff isDigit_facts)

lemma numberToString_small: "n < 10 ^ 21 \<Longrightarrow> numberToString (enat n) = digitsOf n"
  by (simp add: numberToString_def)

lemma canonicalTitle_small:
  "n < 10 ^ 21 \<Longrightarrow> canonicalTitle (enat n) sfx
     = ch_di # digitsOf n @ ch_zhang # (if sfx \<noteq> [] then ch_space # sfx else [])"
  by (simp only: canonicalTitle_def numberToString_small)




lemma chapterNumberPattern_canonical:
  "n < 10 ^ 21 \<Longrightarrow> chapterNumberPattern (canonicalTitle (enat n) sfx) = Some (digitsOf n)"
  using digitsOf_digits [of n]
  by (simp add: chapterNumberPattern_def canonicalTitle_small takeWhile_digits Let_def)

lemma chapterNumber_canonical:
  "title c = canonicalTitle (enat n) sfx \<Longrightarrow> n < 10 ^ 21 \<Longrightarrow> chapterNumber c = Some (roundDouble n)"
  by (simp add: chapterNumber_def chapterNumberPattern_canonical parseInt10_digitsOf)

text \<open>
  From \<open>10^21\<close> on the number is printed with an exponent, and \<open>+Infinity\<close> as a word: the
  title then has no run of digits between \<open>DI\<close> and \<open>ZHANG\<close>.
\<close>

lemma chapterNumberPattern_no_digits:
  assumes "isDigit d" and "\<not> isDigit z" and "z \<noteq> ch_zhang"
  shows "chapterNumberPattern (ch_di # d # z # rest) = None"
  using assms by (simp add: chapterNumberPattern_def Let_def)

lemma exponentForm_shape:
  "\<exists>d z rest. exponentForm n = d # z # rest \<and> isDigit d \<and> (z = 0x65 \<or> z = 0x2E)"
proof (cases "roundDouble (10 ^ length (digitsOf n)) = enat n")
  case True
  then have "exponentForm n = 0x31 # 0x65 # 0x2B # digitsOf (length (digitsOf n))"
    by (simp add: exponentForm_def Let_def)
  moreover have "isDigit 0x31" by (simp add: isDigit_def)
  ultimately show ?thesis by blast
next
  case False
  let ?s = "digitsOf (searchDigits n (length (digitsOf n)) 1)"
  from digitsOf_digits [of "searchDigits n (length (digitsOf n)) 1"]
  obtain d ds where s: "?s = d # ds" and d: "isDigit d"
    by (cases ?s) auto
  show ?thesis
  proof (cases "ds = []")
    case True
    with False s have "exponentForm n = d # 0x65 # 0x2B # digitsOf (length (digitsOf n) - 1)"
      by (simp add: exponentForm_def Let_def)
    with d show ?thesis by blast
  next
    case ne: False
    with False s have "exponentForm n
        = d # 0x2E # ds @ [0x65, 0x2B] @ digitsOf (length (digitsOf n) - 1)"
      by (simp add: exponentForm_def Let_def)
    with d show ?thesis by blast
  qed
qed

lemma chapterNumberPattern_large:
  assumes "10 ^ 21 \<le> n"
  shows "chapterNumberPattern (canonicalTitle (enat n) sfx) = None"
proof -
  from exponentForm_shape [of n] obtain d z rest
    where e: "exponentForm n = d # z # rest" and d: "isDigit d" and z: "z = 0x65 \<or> z = 0x2E"
    by blast
  from z have "\<not> isDigit z" "z \<noteq> ch_zhang"
    by (auto simp: isDigit_def)
  with d have "chapterNumberPattern (ch_di # d # z # (rest @ ch_zhang #
      (if sfx \<noteq> [] then ch_space # sfx else []))) = None"
    by (rule chapterNumberPattern_no_digits)
  moreover from assms have "numberToString (enat n) = exponentForm n"
    by (simp add: numberToString_def)
  ultimately show ?thesis
    by (simp add: canonicalTitle_def e)
qed

lemma chapterNumberPattern_infinite:
  "chapterNumberPattern (canonicalTitle \<infinity> sfx) = None"
  by (simp add: chapterNumberPattern_def canonicalTitle_def numberToString_def isDigit_def Let_def)

lemma chapterNumberPattern_canonical_iff:
  "chapterNumberPattern (canonicalTitle x sfx) \<noteq> None \<longleftrightarrow> (\<exists>n. x = enat n \<and> n < 10 ^ 21)"
proof (cases x)
  case (enat n)
  show ?thesis
  proof (cases "n < 10 ^ 21")
    case True
    with enat show ?thesis by (simp add: chapterNumberPattern_canonical)
  next
    case False
    then have "10 ^ 21 \<le> n" by simp
    with enat False show ?thesis by (simp add: chapterNumberPattern_large)
  qed
next
  case infinity
  then show ?thesis by (simp add: chapterNumberPattern_infinite)
qed

section \<open>The segmenter's chapters\<close>

lemma canonicalTitle_nonempty [simp]: "canonicalTitle n sfx \<noteq> []"
  by (simp add: canonicalTitle_def)

lemma wf_chapterBody: "chapterBody content \<noteq> []" "trim (chapterBody content) = chapterBody content"
  by (simp_all add: chapterBody_def trim_emptyChapterText)

lemma pushChapter_canonical:
  "currentChapter st = Some (canonicalTitle n sfx) \<Longrightarrow>
   pushChapter st = chapters st @ [\<lparr>title = canonicalTitle n sfx, data = chapterBody (currentContent st)\<rparr>]"
  by (simp add: pushChapter_def chapterBody_def Let_def)

lemma pushChapter_None: "currentChapter st = None \<Longrightarrow> pushChapter st = chapters st"
  by (simp add: pushChapter_def)

lemma pushChapter_inv:
  assumes "segInv st"
  shows "list_all wfChapter (pushChapter st)"
    and "pushChapter st = [] \<longleftrightarrow> currentChapter st = None"
proof -
  show "list_all wfChapter (pushChapter st)"
  proof (cases "currentChapter st")
    case None
    with assms show ?thesis by (simp add: pushChapter_None segInv_def)
  next
    case (Some t)
    with assms obtain n sfx where t: "t = canonicalTitle n sfx" "cleanSuffix sfx" "isDoubleValue n"
      by (auto simp: segInv_def)
    with Some assms show ?thesis
      by (auto simp: pushChapter_canonical segInv_def wfChapter_def wf_chapterBody)
  qed
  show "pushChapter st = [] \<longleftrightarrow> currentChapter st = None"
  proof (cases "currentChapter st")
    case None
    with assms show ?thesis by (simp add: pushChapter_None segInv_def)
  next
    case (Some t)
    with assms obtain n sfx where t: "t = canonicalTitle n sfx" "cleanSuffix sfx"
      by (auto simp: segInv_def)
    with Some show ?thesis by (simp add: pushChapter_canonical)
  qed
qed

lemma segmentStep_heading:
  "chapterMatch line = Some (num, g2) \<Longrightarrow>
   segmentStep st line = \<lparr>chapters = pushChapter st,
     currentChapter = Some (chapterTitle line num g2), currentContent = []\<rparr>"
  by (simp add: segmentStep_def)

lemma segmentStep_body:
  "chapterMatch line = None \<Longrightarrow> currentChapter st = Some (canonicalTitle n sfx) \<Longrightarrow>
   segmentStep st line = st\<lparr>currentContent := currentContent st @ [line]\<rparr>"
  by (simp add: segmentStep_def truthy_def)

lemma segmentStep_outside:
  "chapterMatch line = None \<Longrightarrow> currentChapter st = None \<Longrightarrow> segmentStep st line = st"
  by (simp add: segmentStep_def truthy_def)

lemma segInv_step: "segInv st \<Longrightarrow> segInv (segmentStep st line)"
proof (cases "chapterMatch line")
  case None
  assume inv: "segInv st"
  show ?thesis
  proof (cases "currentChapter st")
    case None
    with \<open>chapterMatch line = None\<close> inv show ?thesis by (simp add: segmentStep_outside)
  next
    case (Some t)
    with inv obtain n sfx where "t = canonicalTitle n sfx" by (auto simp: segInv_def)
    with Some \<open>chapterMatch line = None\<close> inv show ?thesis
      by (simp add: segmentStep_body segInv_def)
  qed
next
  case (Some m)
  assume inv: "segInv st"
  obtain num g2 where m: "m = (num, g2)" by (cases m)
  from Some m chapterTitle_canonical [of line num g2] obtain n sfx
    where "chapterTitle line num g2 = canonicalTitle n sfx" "cleanSuffix sfx" "isDoubleValue n"
    by blast
  with Some m pushChapter_inv(1) [OF inv] show ?thesis
    by (auto simp: segmentStep_heading segInv_def)
qed


lemma segInv_init: "segInv \<lparr>chapters = [], currentChapter = None, currentContent = []\<rparr>"
  by (simp add: segInv_def)






text \<open>The titles of the segmenter's chapters are the titles built at the heading lines.\<close>

lemma pushChapter_step_titles:
  assumes "segInv st"
  shows "title ` set (pushChapter (segmentStep st line))
       = title ` set (pushChapter st)
         \<union> (case chapterMatch line of None \<Rightarrow> {} | Some (num, g2) \<Rightarrow> {chapterTitle line num g2})"
proof (cases "chapterMatch line")
  case None
  show ?thesis
  proof (cases "currentChapter st")
    case n: None
    with None show ?thesis by (simp add: segmentStep_outside)
  next
    case (Some t)
    with assms obtain x sfx where t: "t = canonicalTitle x sfx" by (auto simp: segInv_def)
    with Some None show ?thesis
      by (simp add: segmentStep_body pushChapter_canonical)
  qed
next
  case (Some m)
  obtain num g2 where m: "m = (num, g2)" by (cases m)
  from Some m chapterTitle_canonical [of line num g2] obtain x sfx
    where "chapterTitle line num g2 = canonicalTitle x sfx" by blast
  with Some m show ?thesis
    by (simp add: segmentStep_heading pushChapter_canonical)
qed

lemma pushChapter_foldl_titles:
  "segInv st \<Longrightarrow>
   title ` set (pushChapter (foldl segmentStep st lines))
     = title ` set (pushChapter st)
       \<union> {chapterTitle line num g2 | line num g2.
            line \<in> set lines \<and> chapterMatch line = Some (num, g2)}"
proof (induction lines arbitrary: st)
  case Nil
  show ?case by simp
next
  case (Cons l ls)
  from Cons.prems have inv: "segInv (segmentStep st l)" by (rule segInv_step)
  have "title ` set (pushChapter (foldl segmentStep st (l # ls)))
      = title ` set (pushChapter (segmentStep st l))
        \<union> {chapterTitle line num g2 | line num g2.
             line \<in> set ls \<and> chapterMatch line = Some (num, g2)}"
    using Cons.IH [OF inv] by simp
  also have "\<dots> = title ` set (pushChapter st)
        \<union> (case chapterMatch l of None \<Rightarrow> {} | Some (num, g2) \<Rightarrow> {chapterTitle l num g2})
        \<union> {chapterTitle line num g2 | line num g2.
             line \<in> set ls \<and> chapterMatch line = Some (num, g2)}"
    by (simp only: pushChapter_step_titles [OF Cons.prems])
  also have "\<dots> = title ` set (pushChapter st)
        \<union> {chapterTitle line num g2 | line num g2.
             line \<in> set (l # ls) \<and> chapterMatch line = Some (num, g2)}"
    by (cases "chapterMatch l") auto
  finally show ?case .
qed

lemma segmentLines_titles:
  "title ` set (segmentLines lines)
     = {chapterTitle line num g2 | line num g2.
          line \<in> set lines \<and> chapterMatch line = Some (num, g2)}"
  unfolding segmentLines_def
  by (simp add: pushChapter_foldl_titles [OF segInv_init] pushChapter_None)

lemma heading_numbered_iff:
  assumes "chapterMatch line = Some (num, g2)"
  shows "chapterNumberPattern (chapterTitle line num g2) \<noteq> None
     \<longleftrightarrow> (\<exists>n. chineseNumeralToNumber num = Some (enat n) \<and> n < 10 ^ 21)"
proof -
  from chapterTitle_canonical [OF assms] obtain x sfx
    where "chineseNumeralToNumber num = Some x" "chapterTitle line num g2 = canonicalTitle x sfx"
    by blast
  then show ?thesis using chapterNumberPattern_canonical_iff [of x sfx] by simp
qed

lemma removeDuplicateChapters_empty_iff:
  "removeDuplicateChapters cs = [] \<longleftrightarrow> list_all (\<lambda>c. chapterNumber c = None) cs"
proof
  assume e: "removeDuplicateChapters cs = []"
  show "list_all (\<lambda>c. chapterNumber c = None) cs"
  proof (rule ccontr)
    assume "\<not> list_all (\<lambda>c. chapterNumber c = None) cs"
    then obtain c n where "c \<in> set cs" "chapterNumber c = Some n"
      by (auto simp: list_all_iff)
    then have "List.find (\<lambda>c. chapterNumber c = Some n) cs \<noteq> None"
      by (auto simp: find_None_iff)
    then obtain f where "List.find (\<lambda>c. chapterNumber c = Some n) cs = Some f" by blast
    then have "f \<in> set (removeDuplicateChapters cs)" by (rule first_of_group_kept)
    with e show False by simp
  qed
next
  assume a: "list_all (\<lambda>c. chapterNumber c = None) cs"
  have "set (removeDuplicateChapters cs) \<subseteq> set cs"
    using mset_output [of cs] by (metis set_mset_mono set_mset_mset)
  with a have "\<forall>c \<in> set (removeDuplicateChapters cs). chapterNumber c = None"
    by (auto simp: list_all_iff)
  with output_numbered [of _ cs] show "removeDuplicateChapters cs = []"
    by (cases "removeDuplicateChapters cs") auto
qed

lemma splitIntoChapters_empty_iff:
  "splitIntoChapters content = []
     \<longleftrightarrow> (\<forall>line \<in> set (splitLines content). \<forall>num g2. chapterMatch line = Some (num, g2) \<longrightarrow>
            (\<forall>n. chineseNumeralToNumber num = Some (enat n) \<longrightarrow> 10 ^ 21 \<le> n))"
proof -
  let ?lines = "splitLines content"
  have "splitIntoChapters content = []
      \<longleftrightarrow> (\<forall>t \<in> title ` set (segmentLines ?lines). chapterNumberPattern t = None)"
    by (simp add: splitIntoChapters_def removeDuplicateChapters_empty_iff segmentChapters_def
        list_all_iff chapterNumber_def)
  also have "\<dots> \<longleftrightarrow> (\<forall>line \<in> set ?lines. \<forall>num g2. chapterMatch line = Some (num, g2) \<longrightarrow>
            chapterNumberPattern (chapterTitle line num g2) = None)"
    unfolding segmentLines_titles by (rule iffI) (blast, clarsimp)
  also have "\<dots> \<longleftrightarrow> (\<forall>line \<in> set ?lines. \<forall>num g2. chapterMatch line = Some (num, g2) \<longrightarrow>
            (\<forall>n. chineseNumeralToNumber num = Some (enat n) \<longrightarrow> 10 ^ 21 \<le> n))"
    using heading_numbered_iff by (metis not_le)
  finally show ?thesis .
qed

lemma splitIntoChapters_no_heading:
  "list_all (\<lambda>line. chapterMatch line = None) (splitLines content)
     \<Longrightarrow> splitIntoChapters content = []"
  by (simp add: splitIntoChapters_empty_iff list_all_iff)

lemma splitIntoChapters_numbered_heading:
  assumes "line \<in> set (splitLines content)" and "chapterMatch line = Some (num, g2)"
    and "chineseNumeralToNumber num = Some (enat n)" and "n < 10 ^ 21"
  shows "splitIntoChapters content \<noteq> []"
proof
  assume "splitIntoChapters content = []"
  with assms(1,2,3) have "10 ^ 21 \<le> n"
    unfolding splitIntoChapters_empty_iff by blast
  with assms(4) show False by simp
qed

section \<open>The check for an empty chapter list\<close>

text \<open>
  The heading whose numeral is 1 followed by 21 zeros. The line matches the heading pattern;
  its number is \<open>10^21\<close>, which is printed as \<open>1e+21\<close>, so the title of its chapter is
  \<open>DI 1e+21 ZHANG\<close>. The Deduplicator's pattern does not match this title, the chapter is
  in no group, and \<open>splitIntoChapters\<close> returns no chapter.
\<close>

lemma heading_1e21:
  "chapterMatch [0x7B2C, 0x31, 0x30, 0x30, 0x30, 0x30, 0x30, 0x30, 0x30, 0x30, 0x30, 0x30, 0x30,
      0x30, 0x30, 0x30, 0x30, 0x30, 0x30, 0x30, 0x30, 0x30, 0x30, 0x7AE0]
     = Some ([0x31, 0x30, 0x30, 0x30, 0x30, 0x30, 0x30, 0x30, 0x30, 0x30, 0x30, 0x30,
      0x30, 0x30, 0x30, 0x30, 0x30, 0x30, 0x30, 0x30, 0x30, 0x30], None)"
  "chineseNumeralToNumber [0x31, 0x30, 0x30, 0x30, 0x30, 0x30, 0x30, 0x30, 0x30, 0x30, 0x30, 0x30,
      0x30, 0x30, 0x30, 0x30, 0x30, 0x30, 0x30, 0x30, 0x30, 0x30] = Some (enat (10 ^ 21))"
  by (simp_all add: chapterMatch_def isNumeralChar_def numeralClass_def normalizer_eval
      bitLength.simps Let_def)

lemma numberToString_1e21:
  "numberToString (enat (10 ^ 21)) = [0x31, 0x65, 0x2B, 0x32, 0x31]"
  by (simp add: numberToString_def exponentForm_def searchDigits.simps digitCandidate_def
      digitsOf.simps digitChar_def roundDouble_def bitLength.simps Let_def)

lemma segment_1e21:
  "segmentChapters [0x7B2C, 0x31, 0x30, 0x30, 0x30, 0x30, 0x30, 0x30, 0x30, 0x30, 0x30, 0x30, 0x30,
      0x30, 0x30, 0x30, 0x30, 0x30, 0x30, 0x30, 0x30, 0x30, 0x30, 0x7AE0]
     = [\<lparr>title = [0x7B2C, 0x31, 0x65, 0x2B, 0x32, 0x31, 0x7AE0], data = emptyChapterText\<rparr>]"
proof -
  have "splitLines [0x7B2C, 0x31, 0x30, 0x30, 0x30, 0x30, 0x30, 0x30, 0x30, 0x30, 0x30, 0x30, 0x30,
      0x30, 0x30, 0x30, 0x30, 0x30, 0x30, 0x30, 0x30, 0x30, 0x30, 0x7AE0]
     = [[0x7B2C, 0x31, 0x30, 0x30, 0x30, 0x30, 0x30, 0x30, 0x30, 0x30, 0x30, 0x30, 0x30,
      0x30, 0x30, 0x30, 0x30, 0x30, 0x30, 0x30, 0x30, 0x30, 0x30, 0x7AE0]]"
    by (simp add: splitLines.simps)
  moreover have "chapterTitle [0x7B2C, 0x31, 0x30, 0x30, 0x30, 0x30, 0x30, 0x30, 0x30, 0x30, 0x30,
      0x30, 0x30, 0x30, 0x30, 0x30, 0x30, 0x30, 0x30, 0x30, 0x30, 0x30, 0x30, 0x7AE0]
      [0x31, 0x30, 0x30, 0x30, 0x30, 0x30, 0x30, 0x30, 0x30, 0x30, 0x30, 0x30,
      0x30, 0x30, 0x30, 0x30, 0x30, 0x30, 0x30, 0x30, 0x30, 0x30] None
     = [0x7B2C, 0x31, 0x65, 0x2B, 0x32, 0x31, 0x7AE0]"
    by (simp only: chapterTitle_def heading_1e21 numberToString_1e21 Let_def option.case)
      (simp add: trim_def isSpace_def)
  ultimately show ?thesis
    by (simp add: segmentChapters_def segmentLines_def segmentStep_def heading_1e21 pushChapter_def
        trim_def emptyChapterText_def Let_def)
qed

lemma split_1e21:
  "splitIntoChapters [0x7B2C, 0x31, 0x30, 0x30, 0x30, 0x30, 0x30, 0x30, 0x30, 0x30, 0x30, 0x30, 0x30,
      0x30, 0x30, 0x30, 0x30, 0x30, 0x30, 0x30, 0x30, 0x30, 0x30, 0x7AE0] = []"
  by (simp only: splitIntoChapters_def segment_1e21) (simp add: dedupe_eval)

text \<open>
  C7 (as amended): when the five required options are given and the input file exists,
  \<open>convertTxtToEpub\<close> throws its "no chapters found" error exactly when
  \<open>splitIntoChapters\<close> returns zero chapters for the processed (ad-filtered) text. A
  text no line of which matches the heading pattern gives zero chapters, and a text with a
  heading line whose numeral has a value below \<open>10^21\<close> gives at least one. With a
  nonzero chapter count the conversion goes past this check, counts the words and hands the
  chapters to the packaging, whose outcome is then the outcome of the conversion.
\<close>

theorem no_chapters_error_iff:
  assumes "truthy (inputFile options)" and "truthy (outputFile options)"
    and "truthy (bookTitle options)" and "truthy (author options)" and "truthy (maker options)"
    and "inputFile options = Some inputPath" and "outputFile options = Some outputPath"
    and "processTextFile fs (adOptions this_options (optAdKeywords options)) inputPath
           = Inr processedContent"
  shows "(convertTxtToEpub pack fs this_options options = Inl NoChaptersFound
            \<longleftrightarrow> length (splitIntoChapters processedContent) = 0)
    \<and> (list_all (\<lambda>line. chapterMatch line = None) (splitLines processedContent)
            \<longrightarrow> length (splitIntoChapters processedContent) = 0)
    \<and> ((\<exists>line \<in> set (splitLines processedContent). \<exists>chineseNum group2 n.
            chapterMatch line = Some (chineseNum, group2)
            \<and> chineseNumeralToNumber chineseNum = Some (enat n) \<and> n < 10 ^ 21)
          \<longrightarrow> length (splitIntoChapters processedContent) \<noteq> 0)
    \<and> (length (splitIntoChapters processedContent) \<noteq> 0 \<longrightarrow>
          convertTxtToEpub pack fs this_options options
            = (if pack (splitIntoChapters processedContent)
               then Inr \<lparr>resultFile = outputPath,
                        chapterCount = length (splitIntoChapters processedContent),
                        totalWords = countTotalWords (splitIntoChapters processedContent)\<rparr>
               else Inl PackagingFailed))"
proof -
  have a: "convertTxtToEpub pack fs this_options options = Inl NoChaptersFound
            \<longleftrightarrow> length (splitIntoChapters processedContent) = 0"
    using assms by (simp add: convertTxtToEpub_def Let_def)
  have b: "list_all (\<lambda>line. chapterMatch line = None) (splitLines processedContent)
            \<longrightarrow> length (splitIntoChapters processedContent) = 0"
    using splitIntoChapters_no_heading [of processedContent] by simp
  have c: "(\<exists>line \<in> set (splitLines processedContent). \<exists>chineseNum group2 n.
            chapterMatch line = Some (chineseNum, group2)
            \<and> chineseNumeralToNumber chineseNum = Some (enat n) \<and> n < 10 ^ 21)
          \<longrightarrow> length (splitIntoChapters processedContent) \<noteq> 0"
    using splitIntoChapters_numbered_heading [of _ processedContent] by auto
  have d: "length (splitIntoChapters processedContent) \<noteq> 0 \<longrightarrow>
          convertTxtToEpub pack fs this_options options
            = (if pack (splitIntoChapters processedContent)
               then Inr \<lparr>resultFile = outputPath,
                        chapterCount = length (splitIntoChapters processedContent),
                        totalWords = countTotalWords (splitIntoChapters processedContent)\<rparr>
               else Inl PackagingFailed)"
    using assms by (simp add: convertTxtToEpub_def Let_def)
  from a b c d show ?thesis by (intro conjI)
qed

text \<open>
  C7 as the specification words it fails in both directions. The conversion also fails when segmentation
  would find a chapter: without \<open>maker\<close> it throws before it reads the file, although the
  file, a single heading with the numeral 1, segments into one chapter. And zero chapters
  does not mean that no line matched: the file whose only line is the heading with the
  numeral 1 followed by 21 zeros has a line that matches the heading pattern, yet
  \<open>splitIntoChapters\<close> returns no chapter and the conversion throws.
\<close>

theorem hard_error_differs_from_no_heading:
  "convertTxtToEpub (\<lambda>chs. True) (\<lambda>path. Some [0x7B2C, 0x31, 0x7AE0])
      \<lparr>filterAds = False, adKeywords = []\<rparr>
      \<lparr>inputFile = Some [0x61], outputFile = Some [0x62], bookTitle = Some [0x63],
        author = Some [0x64], maker = None, optAdKeywords = None\<rparr>
     = Inl MissingParameters
   \<and> length (splitIntoChapters [0x7B2C, 0x31, 0x7AE0]) = 1
   \<and> chapterMatch [0x7B2C, 0x31, 0x30, 0x30, 0x30, 0x30, 0x30, 0x30, 0x30, 0x30, 0x30, 0x30, 0x30,
        0x30, 0x30, 0x30, 0x30, 0x30, 0x30, 0x30, 0x30, 0x30, 0x30, 0x7AE0] \<noteq> None
   \<and> length (splitIntoChapters [0x7B2C, 0x31, 0x30, 0x30, 0x30, 0x30, 0x30, 0x30, 0x30, 0x30,
        0x30, 0x30, 0x30, 0x30, 0x30, 0x30, 0x30, 0x30, 0x30, 0x30, 0x30, 0x30, 0x30, 0x7AE0]) = 0
   \<and> convertTxtToEpub (\<lambda>chs. True)
        (\<lambda>path. Some [0x7B2C, 0x31, 0x30, 0x30, 0x30, 0x30, 0x30, 0x30, 0x30, 0x30, 0x30, 0x30,
           0x30, 0x30, 0x30, 0x30, 0x30, 0x30, 0x30, 0x30, 0x30, 0x30, 0x30, 0x7AE0])
        \<lparr>filterAds = False, adKeywords = []\<rparr>
        \<lparr>inputFile = Some [0x61], outputFile = Some [0x62], bookTitle = Some [0x63],
          author = Some [0x64], maker = Some [0x65], optAdKeywords = None\<rparr>
     = Inl NoChaptersFound"
proof -
  have seg: "segmentChapters [0x7B2C, 0x31, 0x7AE0]
    = [\<lparr>title = [0x7B2C, 0x31, 0x7AE0], data = emptyChapterText\<rparr>]"
    by (simp add: segmenter_eval)
  have "removeDuplicateChapters [\<lparr>title = [0x7B2C, 0x31, 0x7AE0], data = emptyChapterText\<rparr>]
    = [\<lparr>title = [0x7B2C, 0x31, 0x7AE0], data = emptyChapterText\<rparr>]"
    by (simp add: dedupe_eval)
  with seg have one: "length (splitIntoChapters [0x7B2C, 0x31, 0x7AE0]) = 1"
    by (simp add: splitIntoChapters_def)
  have missing: "convertTxtToEpub (\<lambda>chs. True) (\<lambda>path. Some [0x7B2C, 0x31, 0x7AE0])
      \<lparr>filterAds = False, adKeywords = []\<rparr>
      \<lparr>inputFile = Some [0x61], outputFile = Some [0x62], bookTitle = Some [0x63],
        author = Some [0x64], maker = None, optAdKeywords = None\<rparr>
     = Inl MissingParameters"
    by (simp add: convertTxtToEpub_def truthy_def)
  have thrown: "convertTxtToEpub (\<lambda>chs. True)
        (\<lambda>path. Some [0x7B2C, 0x31, 0x30, 0x30, 0x30, 0x30, 0x30, 0x30, 0x30, 0x30, 0x30, 0x30,
           0x30, 0x30, 0x30, 0x30, 0x30, 0x30, 0x30, 0x30, 0x30, 0x30, 0x30, 0x7AE0])
        \<lparr>filterAds = False, adKeywords = []\<rparr>
        \<lparr>inputFile = Some [0x61], outputFile = Some [0x62], bookTitle = Some [0x63],
          author = Some [0x64], maker = Some [0x65], optAdKeywords = None\<rparr>
     = Inl NoChaptersFound"
    by (simp add: convertTxtToEpub_def truthy_def processTextFile_def adOptions_def split_1e21)
  from one missing thrown show ?thesis
    by (simp only: heading_1e21 split_1e21) simp
qed

text \<open>
  All options given, a file with the single line "x": no line is a heading, and the
  conversion throws the "no chapters found" error. And the file with the single heading of
  the numeral 1, below \<open>10^21\<close>: one chapter, which is handed to the packaging.
\<close>

theorem no_chapters_error_iff_witness:
  "truthy (Some [0x61]) \<and> processTextFile (\<lambda>path. Some [0x78]) (adOptions \<lparr>filterAds = False, adKeywords = []\<rparr> None) [0x61] = Inr [0x78]
   \<and> list_all (\<lambda>line. chapterMatch line = None) (splitLines [0x78])
   \<and> convertTxtToEpub (\<lambda>chs. True) (\<lambda>path. Some [0x78])
      \<lparr>filterAds = False, adKeywords = []\<rparr>
      \<lparr>inputFile = Some [0x61], outputFile = Some [0x62], bookTitle = Some [0x63],
        author = Some [0x64], maker = Some [0x65], optAdKeywords = None\<rparr>
     = Inl NoChaptersFound
   \<and> chapterMatch [0x7B2C, 0x31, 0x7AE0] = Some ([0x31], None)
   \<and> chineseNumeralToNumber [0x31] = Some (enat 1)
   \<and> convertTxtToEpub (\<lambda>chs. True) (\<lambda>path. Some [0x7B2C, 0x31, 0x7AE0])
      \<lparr>filterAds = False, adKeywords = []\<rparr>
      \<lparr>inputFile = Some [0x61], outputFile = Some [0x62], bookTitle = Some [0x63],
        author = Some [0x64], maker = Some [0x65], optAdKeywords = None\<rparr>
     = Inr \<lparr>resultFile = [0x62], chapterCount = length (splitIntoChapters [0x7B2C, 0x31, 0x7AE0]),
            totalWords = countTotalWords (splitIntoChapters [0x7B2C, 0x31, 0x7AE0])\<rparr>"
proof -
  have t: "truthy (Some [0x61])" "truthy (Some [0x62])" "truthy (Some [0x63])"
    "truthy (Some [0x64])" "truthy (Some [0x65])"
    by (simp_all add: truthy_def)
  have p: "processTextFile (\<lambda>path. Some [0x78])
      (adOptions \<lparr>filterAds = False, adKeywords = []\<rparr> None) [0x61] = Inr [0x78]"
    by (simp add: processTextFile_def adOptions_def)
  have l: "list_all (\<lambda>line. chapterMatch line = None) (splitLines [0x78])"
    by (simp add: splitLines.simps chapterMatch_def)
  have p1: "processTextFile (\<lambda>path. Some [0x7B2C, 0x31, 0x7AE0])
      (adOptions \<lparr>filterAds = False, adKeywords = []\<rparr> None) [0x61] = Inr [0x7B2C, 0x31, 0x7AE0]"
    by (simp add: processTextFile_def adOptions_def)
  have l1: "splitLines [0x7B2C, 0x31, 0x7AE0] = [[0x7B2C, 0x31, 0x7AE0]]"
    by (simp add: splitLines.simps)
  have m1: "chapterMatch [0x7B2C, 0x31, 0x7AE0] = Some ([0x31], None)"
    by (simp add: chapterMatch_def isNumeralChar_def numeralClass_def isDigit_def Let_def)
  have n1: "chineseNumeralToNumber [0x31] = Some (enat 1)"
    by (simp add: normalizer_eval)
  have none: "convertTxtToEpub (\<lambda>chs. True) (\<lambda>path. Some [0x78])
      \<lparr>filterAds = False, adKeywords = []\<rparr>
      \<lparr>inputFile = Some [0x61], outputFile = Some [0x62], bookTitle = Some [0x63],
        author = Some [0x64], maker = Some [0x65], optAdKeywords = None\<rparr>
     = Inl NoChaptersFound"
    using t p l
      no_chapters_error_iff [of "\<lparr>inputFile = Some [0x61], outputFile = Some [0x62],
        bookTitle = Some [0x63], author = Some [0x64], maker = Some [0x65],
        optAdKeywords = None\<rparr>" "[0x61]" "[0x62]" "\<lambda>path. Some [0x78]"
        "\<lparr>filterAds = False, adKeywords = []\<rparr>" "[0x78]" "\<lambda>chs. True"]
    by simp
  have some: "convertTxtToEpub (\<lambda>chs. True) (\<lambda>path. Some [0x7B2C, 0x31, 0x7AE0])
      \<lparr>filterAds = False, adKeywords = []\<rparr>
      \<lparr>inputFile = Some [0x61], outputFile = Some [0x62], bookTitle = Some [0x63],
        author = Some [0x64], maker = Some [0x65], optAdKeywords = None\<rparr>
     = Inr \<lparr>resultFile = [0x62], chapterCount = length (splitIntoChapters [0x7B2C, 0x31, 0x7AE0]),
            totalWords = countTotalWords (splitIntoChapters [0x7B2C, 0x31, 0x7AE0])\<rparr>"
    using t p1 m1 n1
      no_chapters_error_iff [of "\<lparr>inputFile = Some [0x61], outputFile = Some [0x62],
        bookTitle = Some [0x63], author = Some [0x64], maker = Some [0x65],
        optAdKeywords = None\<rparr>" "[0x61]" "[0x62]" "\<lambda>path. Some [0x7B2C, 0x31, 0x7AE0]"
        "\<lparr>filterAds = False, adKeywords = []\<rparr>" "[0x7B2C, 0x31, 0x7AE0]" "\<lambda>chs. True"]
    by (simp add: l1)
  from t p l m1 n1 none some show ?thesis by simp
qed

section \<open>Lines\<close>







lemma splitLines_nonempty [simp]: "splitLines s \<noteq> []"
  by (subst splitLines.simps) (simp split: list.splits)





section \<open>Segmenting serialized chapters\<close>













section \<open>A second pass of the Deduplicator\<close>





section \<open>The round trip\<close>




end
